theory Spec2Isabelle
  imports Complex_Main "HOL-Library.Word" "HOL-Library.AList"
begin

section \<open>Span identities and the trace carrier\<close>

text \<open>
  The program uses the OpenTelemetry trace API for span identities. A trace identity is
  a 16-byte array and a span identity an 8-byte array; both are modelled as machine words
  of 128 and 64 bits (the big-endian reading of the array), so that the width is part of
  the type. A \<open>SpanContext\<close> carries both, the flags byte, the trace state and the
  remote marker. The zero value of the struct is the invalid sentinel.
\<close>

type_synonym TraceID = "128 word"
type_synonym SpanID = "64 word"

record SpanContext =
  TraceID :: TraceID
  SpanID :: SpanID
  TraceFlags :: "8 word"
  TraceState :: "(string \<times> string) list"
  Remote :: bool

definition FlagsSampled :: "8 word" where
  "FlagsSampled = 1"

definition emptySpanContext :: SpanContext where
  "emptySpanContext =
     \<lparr>TraceID = 0, SpanID = 0, TraceFlags = 0, TraceState = [], Remote = False\<rparr>"

definition IsValid :: "SpanContext \<Rightarrow> bool" where
  "IsValid sc \<longleftrightarrow> TraceID sc \<noteq> 0 \<and> SpanID sc \<noteq> 0"

subsection \<open>Hexadecimal text of an identity\<close>

text \<open>
  \<open>TraceID.String\<close> and \<open>SpanID.String\<close> print the bytes as lowercase hexadecimal,
  two characters per byte, most significant first: 32 and 16 characters.
\<close>

definition hexdigit :: "nat \<Rightarrow> char" where
  "hexdigit d = ''0123456789abcdef'' ! d"

fun hexn :: "nat \<Rightarrow> nat \<Rightarrow> string" where
  "hexn 0 k = []"
| "hexn (Suc n) k = hexn n (k div 16) @ [hexdigit (k mod 16)]"

definition TraceID_String :: "TraceID \<Rightarrow> string" where
  "TraceID_String t = hexn 32 (unat t)"

definition SpanID_String :: "SpanID \<Rightarrow> string" where
  "SpanID_String s = hexn 16 (unat s)"

text \<open>
  \<open>TraceIDFromHex\<close> and \<open>SpanIDFromHex\<close> accept exactly 32 (16) characters out of
  \<open>0-9a-f\<close> and refuse the all-zero identity. \<open>hexval\<close> is the value of one accepted
  character, \<open>hexdec\<close> reads a whole string, most significant digit first.
\<close>

datatype error =
    ErrInvalidHexID
  | ErrInvalidTraceIDLength
  | ErrNilTraceID
  | ErrInvalidSpanIDLength
  | ErrNilSpanID
  | ErrBatchSize
  | ErrContextCanceled
  | ErrPublishOrder string error
  | ErrPublishAny "error option"
  | ErrOrderIDRequired
  | ErrProcessing nat
  | ErrStep string error

definition hexval :: "char \<Rightarrow> nat option" where
  "hexval c =
     (let n = (of_char c :: nat)
      in if 97 \<le> n \<and> n \<le> 102 then Some (n - 87)
         else if 48 \<le> n \<and> n \<le> 57 then Some (n - 48)
         else None)"

definition hexstep :: "char \<Rightarrow> nat option \<Rightarrow> nat option" where
  "hexstep c acc =
     (case acc of None \<Rightarrow> None
      | Some a \<Rightarrow> (case hexval c of None \<Rightarrow> None | Some d \<Rightarrow> Some (16 * a + d)))"

definition hexdec :: "string \<Rightarrow> nat option" where
  "hexdec s = fold hexstep s (Some 0)"

definition TraceIDFromHex :: "string \<Rightarrow> error + TraceID" where
  "TraceIDFromHex h =
     (if length h \<noteq> 32 then Inl ErrInvalidTraceIDLength
      else case hexdec h of
             None \<Rightarrow> Inl ErrInvalidHexID
           | Some k \<Rightarrow> if (of_nat k :: TraceID) = 0 then Inl ErrNilTraceID else Inr (of_nat k))"

definition SpanIDFromHex :: "string \<Rightarrow> error + SpanID" where
  "SpanIDFromHex h =
     (if length h \<noteq> 16 then Inl ErrInvalidSpanIDLength
      else case hexdec h of
             None \<Rightarrow> Inl ErrInvalidHexID
           | Some k \<Rightarrow> if (of_nat k :: SpanID) = 0 then Inl ErrNilSpanID else Inr (of_nat k))"

section \<open>Messages and the queue\<close>

text \<open>
  \<open>Order\<close> is the message of queue.go. The amount is a float64 that only ever holds
  small whole numbers here; the creation time is an opaque clock reading.
\<close>

record Order =
  ID :: string
  CustomerID :: string
  Amount :: real
  CreatedAt :: nat
  TraceParent :: string
  TraceState_msg :: string
  OriginalSpanID :: string

definition DefaultQueueCapacity :: nat where
  "DefaultQueueCapacity = 100"

text \<open>
  The queue is a buffered channel of capacity \<open>DefaultQueueCapacity\<close> (the mutex guards
  nothing else and is left out).
\<close>

record SimpleQueue =
  messages :: "Order list"

text \<open>
  \<open>Publish\<close> stamps the identity of the span current in the context into the message and
  then runs a \<open>select\<close> between the channel send and the cancellation of the context.
  \<open>spanCtx\<close> is \<open>trace.SpanFromContext(ctx).SpanContext()\<close> and \<open>ctxDone\<close> tells
  whether the context is cancelled. The result is \<open>None\<close> when neither case of the
  \<open>select\<close> is ready (the call blocks); when both are ready Go picks one of them at
  random, which is the argument \<open>pickSend\<close>. Otherwise the result is the returned error
  (\<open>None\<close> for nil) and the queue afterwards.
\<close>

definition Publish ::
  "SpanContext \<Rightarrow> bool \<Rightarrow> bool \<Rightarrow> Order \<Rightarrow> SimpleQueue
     \<Rightarrow> (error option \<times> SimpleQueue) option" where
  "Publish spanCtx ctxDone pickSend order q =
     (let order1 = order\<lparr>OriginalSpanID := SpanID_String (SpanID spanCtx)\<rparr>;
          order2 = order1\<lparr>TraceParent :=
                     ''00-'' @ TraceID_String (TraceID spanCtx) @ ''-''
                       @ SpanID_String (SpanID spanCtx) @ ''-01''\<rparr>;
          canSend = (length (messages q) < DefaultQueueCapacity)
      in if canSend \<and> ctxDone
         then (if pickSend then Some (None, q\<lparr>messages := messages q @ [order2]\<rparr>)
               else Some (Some ErrContextCanceled, q))
         else if canSend then Some (None, q\<lparr>messages := messages q @ [order2]\<rparr>)
         else if ctxDone then Some (Some ErrContextCanceled, q)
         else None)"

definition Consume ::
  "bool \<Rightarrow> bool \<Rightarrow> SimpleQueue \<Rightarrow> ((error + Order) \<times> SimpleQueue) option" where
  "Consume ctxDone pickRecv q =
     (case messages q of
        msg # rest \<Rightarrow>
          if ctxDone \<and> \<not> pickRecv then Some (Inl ErrContextCanceled, q)
          else Some (Inr msg, q\<lparr>messages := rest\<rparr>)
      | [] \<Rightarrow> if ctxDone then Some (Inl ErrContextCanceled, q) else None)"

subsection \<open>Decoding the carrier\<close>

text \<open>
  A Go slice expression \<open>s[lo:hi]\<close> panics unless \<open>lo \<le> hi \<le> len(s)\<close>; the panic is
  the value \<open>None\<close>.
\<close>

definition slice :: "string \<Rightarrow> nat \<Rightarrow> nat \<Rightarrow> string option" where
  "slice s lo hi = (if lo \<le> hi \<and> hi \<le> length s then Some (take (hi - lo) (drop lo s)) else None)"

definition SpanContextFromMessage :: "Order \<Rightarrow> SpanContext option" where
  "SpanContextFromMessage order =
     (if length (TraceParent order) < 53 then Some emptySpanContext
      else
        case slice (TraceParent order) 3 35 of
          None \<Rightarrow> None
        | Some traceIDStr \<Rightarrow>
           (case slice (TraceParent order) 36 52 of
              None \<Rightarrow> None
            | Some spanIDStr \<Rightarrow>
               (case TraceIDFromHex traceIDStr of
                  Inl err \<Rightarrow> Some emptySpanContext
                | Inr tid \<Rightarrow>
                   (case SpanIDFromHex spanIDStr of
                      Inl err \<Rightarrow> Some emptySpanContext
                    | Inr sid \<Rightarrow>
                        Some \<lparr>TraceID = tid, SpanID = sid, TraceFlags = FlagsSampled,
                              TraceState = [], Remote = True\<rparr>))))"

section \<open>The tracer\<close>

text \<open>
  The tracer is the capability the program consumes: \<open>Start\<close> creates a span from a name,
  a kind, attributes and links; a span handle supports \<open>RecordError\<close>, \<open>AddEvent\<close>,
  \<open>SetStatus\<close>, \<open>AddLink\<close>, \<open>End\<close> and \<open>SpanContext\<close>. The state of the tracer is
  the list of the spans created so far, a handle is an index into it. Each span keeps the
  links and calls it was given, in order, and counts the invocations of \<open>End\<close>. A span
  stops recording at its first \<open>End\<close>. Fresh identities come from \<open>idgen\<close>; every span
  is sampled, as the provider of otel.go is configured.
\<close>

datatype SpanKind =
    SpanKindUnspecified
  | SpanKindInternal
  | SpanKindServer
  | SpanKindClient
  | SpanKindProducer
  | SpanKindConsumer

datatype Value = StringValue string | IntValue int | Float64Value real | BoolValue bool

type_synonym KeyValue = "string \<times> Value"

record Link =
  LinkSpanContext :: SpanContext
  LinkAttributes :: "KeyValue list"

datatype Code = Unset | Error | Ok

record Span =
  spanName :: string
  spanKind :: SpanKind
  spanContext :: SpanContext
  parentContext :: SpanContext
  attributes :: "KeyValue list"
  links :: "Link list"
  recordedErrors :: "error list"
  events :: "(string \<times> KeyValue list) list"
  status :: "Code \<times> string"
  endCalls :: nat

record Tracer =
  spans :: "Span list"
  idgen :: "nat \<Rightarrow> TraceID \<times> SpanID"

text \<open>The context of a call carries the handle of its current span, if any.\<close>

type_synonym Context = "nat option"

definition SpanContextOf :: "Tracer \<Rightarrow> Context \<Rightarrow> SpanContext" where
  "SpanContextOf t ctx =
     (case ctx of
        None \<Rightarrow> emptySpanContext
      | Some h \<Rightarrow> if h < length (spans t) then spanContext (spans t ! h) else emptySpanContext)"

definition newSpan ::
  "Tracer \<Rightarrow> Context \<Rightarrow> string \<Rightarrow> SpanKind \<Rightarrow> KeyValue list \<Rightarrow> Link list \<Rightarrow> Span" where
  "newSpan t ctx name kind attrs lnks =
     (let h = length (spans t);
          psc = SpanContextOf t ctx;
          sc = \<lparr>TraceID = (if IsValid psc then TraceID psc else fst (idgen t h)),
                SpanID = snd (idgen t h),
                TraceFlags = FlagsSampled,
                TraceState = (if IsValid psc then TraceState psc else []),
                Remote = False\<rparr>
      in \<lparr>spanName = name,
          spanKind = (if kind = SpanKindUnspecified then SpanKindInternal else kind),
          spanContext = sc, parentContext = psc, attributes = attrs, links = lnks,
          recordedErrors = [], events = [], status = (Unset, []), endCalls = 0\<rparr>)"

definition Start ::
  "Context \<Rightarrow> string \<Rightarrow> SpanKind \<Rightarrow> KeyValue list \<Rightarrow> Link list \<Rightarrow> Tracer \<Rightarrow> nat \<times> Tracer" where
  "Start ctx name kind attrs lnks t =
     (length (spans t), t\<lparr>spans := spans t @ [newSpan t ctx name kind attrs lnks]\<rparr>)"

definition updSpan :: "nat \<Rightarrow> (Span \<Rightarrow> Span) \<Rightarrow> Tracer \<Rightarrow> Tracer" where
  "updSpan h f t = t\<lparr>spans := (spans t)[h := f (spans t ! h)]\<rparr>"

definition End :: "nat \<Rightarrow> Tracer \<Rightarrow> Tracer" where
  "End h = updSpan h (\<lambda>s. s\<lparr>endCalls := Suc (endCalls s)\<rparr>)"

definition RecordError :: "nat \<Rightarrow> error option \<Rightarrow> Tracer \<Rightarrow> Tracer" where
  "RecordError h err =
     (case err of
        None \<Rightarrow> (\<lambda>t. t)
      | Some e \<Rightarrow>
          updSpan h (\<lambda>s. if endCalls s = 0 then s\<lparr>recordedErrors := recordedErrors s @ [e]\<rparr>
                          else s))"

definition AddEvent :: "nat \<Rightarrow> string \<Rightarrow> KeyValue list \<Rightarrow> Tracer \<Rightarrow> Tracer" where
  "AddEvent h name attrs =
     updSpan h (\<lambda>s. if endCalls s = 0 then s\<lparr>events := events s @ [(name, attrs)]\<rparr> else s)"

definition SetStatus :: "nat \<Rightarrow> Code \<Rightarrow> string \<Rightarrow> Tracer \<Rightarrow> Tracer" where
  "SetStatus h code description =
     updSpan h (\<lambda>s. if endCalls s = 0 then s\<lparr>status := (code, description)\<rparr> else s)"

definition AddLink :: "nat \<Rightarrow> Link \<Rightarrow> Tracer \<Rightarrow> Tracer" where
  "AddLink h l =
     updSpan h (\<lambda>s. if endCalls s = 0 then s\<lparr>links := links s @ [l]\<rparr> else s)"

section \<open>The producer\<close>

text \<open>
  The world of the producer and the workers: the tracer, the queue, the cancellation flag
  of the shared context, the side channel of the workers (absent, or a buffer with its
  capacity) and the counter of orders in flight.
\<close>

record OrderSpanContext =
  OrderID :: string
  Ctx :: SpanContext

record Sink =
  sinkBuf :: "OrderSpanContext list"
  sinkCap :: nat

record World =
  tracer :: Tracer
  queue :: SimpleQueue
  ctxDone :: bool
  spanCtxSink :: "Sink option"
  activeOrders :: int

text \<open>
  What the program does not decide is given from outside, once per item of a batch: the
  first eight characters of the fresh UUID, the clock reading, how many messages the
  workers take from the queue and whether the context is cancelled before the item's
  \<open>select\<close> fires, and the choice of the \<open>select\<close> when both of its cases are ready.
\<close>

record EnvStep =
  uuid8 :: string
  now :: nat
  consumed :: nat
  cancelNow :: bool
  pickSend :: bool

text \<open>
  A call either returns, blocks for ever (a \<open>select\<close> with no ready case and nothing
  left to wake it), panics, or ends the process through \<open>log.Fatalf\<close>.
\<close>

datatype 'a outcome = Returns 'a | Blocks | Panics | Fatal

text \<open>Decimal text of a number, as \<open>%d\<close> prints it.\<close>

function showNat :: "nat \<Rightarrow> string" where
  "showNat n =
     (if n < 10 then [char_of (48 + n)] else showNat (n div 10) @ [char_of (48 + n mod 10)])"
  by pat_completeness auto
termination
  by (relation "measure (\<lambda>n. n)") auto

text \<open>
  The state of the loop of \<open>publishInternal\<close>. The Go map \<open>orderSpans\<close> is an association
  list with one entry per key; a value \<open>None\<close> is a nil span.
\<close>

record LoopState =
  pw :: World
  publishedCount :: nat
  orderSpans :: "(string \<times> nat option) list"
  lastErr :: "error option"

definition newOrder :: "EnvStep \<Rightarrow> nat \<Rightarrow> Order" where
  "newOrder e i =
     \<lparr>ID = ''ORDER-'' @ uuid8 e,
      CustomerID = ''CUST-'' @ showNat (1000 + i),
      Amount = real (100 + i * 10),
      CreatedAt = now e,
      TraceParent = [], TraceState_msg = [], OriginalSpanID = []\<rparr>"

definition orderAttrs :: "Order \<Rightarrow> KeyValue list" where
  "orderAttrs order =
     [(''order.id'', StringValue (ID order)),
      (''customer.id'', StringValue (CustomerID order)),
      (''order.amount'', Float64Value (Amount order))]"

text \<open>
  The body of the loop of \<open>publishInternal\<close> for item \<open>i\<close>: the order is created, its span
  is started from the context of the batch span, the environment acts, and the message is
  published. \<open>None\<close> means that \<open>Publish\<close> blocks.
\<close>

definition publishItem ::
  "(nat \<Rightarrow> EnvStep) \<Rightarrow> nat \<Rightarrow> bool \<Rightarrow> nat \<Rightarrow> LoopState \<Rightarrow> LoopState option" where
  "publishItem env bspan keepOpen i st =
     (let e = env i;
          order = newOrder e i;
          (pubSpan, t1) = Start (Some bspan) ''PublishOrder'' SpanKindInternal (orderAttrs order) []
                            (tracer (pw st));
          q1 = (queue (pw st))\<lparr>messages := drop (consumed e) (messages (queue (pw st)))\<rparr>;
          d1 = (ctxDone (pw st) \<or> cancelNow e)
      in case Publish (SpanContextOf t1 (Some pubSpan)) d1 (pickSend e) order q1 of
           None \<Rightarrow> None
         | Some (Some err, q2) \<Rightarrow>
             Some (st\<lparr>pw := (pw st)\<lparr>tracer := End pubSpan (RecordError pubSpan (Some err) t1),
                                     queue := q2, ctxDone := d1\<rparr>,
                       lastErr := Some (ErrPublishOrder (ID order) err)\<rparr>)
         | Some (None, q2) \<Rightarrow>
             Some (st\<lparr>pw := (pw st)\<lparr>tracer := (if \<not> keepOpen then End pubSpan t1 else t1),
                                     queue := q2, ctxDone := d1\<rparr>,
                       publishedCount := publishedCount st + 1,
                       orderSpans := AList.update (ID order) (Some pubSpan) (orderSpans st)\<rparr>))"

text \<open>
  The loop \<open>for i := 0; i < count; i++\<close>; the fourth argument is \<open>i\<close> and the fifth the
  number \<open>count - i\<close> of iterations left.
\<close>

fun publishLoop ::
  "(nat \<Rightarrow> EnvStep) \<Rightarrow> nat \<Rightarrow> bool \<Rightarrow> nat \<Rightarrow> nat \<Rightarrow> LoopState \<Rightarrow> LoopState option" where
  "publishLoop env bspan keepOpen i 0 st = Some st"
| "publishLoop env bspan keepOpen i (Suc n) st =
     (case publishItem env bspan keepOpen i st of
        None \<Rightarrow> None
      | Some st1 \<Rightarrow> publishLoop env bspan keepOpen (Suc i) n st1)"

text \<open>\<open>for _, s := range orderSpans { s.End() }\<close>; calling a method of a nil span panics.\<close>

fun endAll :: "(string \<times> nat option) list \<Rightarrow> Tracer \<Rightarrow> Tracer option" where
  "endAll [] t = Some t"
| "endAll ((oid, None) # rest) t = None"
| "endAll ((oid, Some s) # rest) t = endAll rest (End s t)"

record PublishResult =
  batchSpan :: "nat option"
  itemSpans :: "(string \<times> nat option) list"
  published :: nat
  failure :: "error option"

definition publishInternal ::
  "(nat \<Rightarrow> EnvStep) \<Rightarrow> Context \<Rightarrow> int \<Rightarrow> bool \<Rightarrow> World \<Rightarrow> (PublishResult \<times> World) outcome" where
  "publishInternal env ctx count keepOpen w =
     (if count \<le> 0
      then Returns (\<lparr>batchSpan = None, itemSpans = [], published = 0, failure = Some ErrBatchSize\<rparr>, w)
      else
        let (bspan, t0) = Start ctx ''PublishOrderBatch'' SpanKindProducer
                           [(''order.batch.size'', IntValue count)] [] (tracer w)
        in case publishLoop env bspan keepOpen 0 (nat count)
                  \<lparr>pw = w\<lparr>tracer := t0\<rparr>, publishedCount = 0, orderSpans = [], lastErr = None\<rparr> of
             None \<Rightarrow> Blocks
           | Some st \<Rightarrow>
               if publishedCount st = 0
               then
                 let t1 = RecordError bspan (lastErr st) (tracer (pw st));
                     t2 = (if \<not> keepOpen then End bspan t1 else t1)
                 in Returns (\<lparr>batchSpan = Some bspan, itemSpans = orderSpans st, published = 0,
                              failure = Some (ErrPublishAny (lastErr st))\<rparr>,
                             (pw st)\<lparr>tracer := t2\<rparr>)
               else
                 let t1 = AddEvent bspan ''Batch published''
                            [(''published.count'', IntValue (int (publishedCount st))),
                             (''total.count'', IntValue count)] (tracer (pw st))
                 in if \<not> keepOpen
                    then (case endAll (orderSpans st) (End bspan t1) of
                            None \<Rightarrow> Panics
                          | Some t2 \<Rightarrow>
                              Returns (\<lparr>batchSpan = Some bspan, itemSpans = orderSpans st,
                                        published = publishedCount st, failure = None\<rparr>,
                                       (pw st)\<lparr>tracer := t2\<rparr>))
                    else Returns (\<lparr>batchSpan = Some bspan, itemSpans = orderSpans st,
                                   published = publishedCount st, failure = None\<rparr>,
                                  (pw st)\<lparr>tracer := t1\<rparr>))"

definition PublishOrderBatch ::
  "(nat \<Rightarrow> EnvStep) \<Rightarrow> Context \<Rightarrow> int \<Rightarrow> World \<Rightarrow> ((SpanContext \<times> error option) \<times> World) outcome" where
  "PublishOrderBatch env ctx count w =
     (case publishInternal env ctx count False w of
        Returns (r, w1) \<Rightarrow>
          (case failure r of
             Some e \<Rightarrow> Returns ((emptySpanContext, Some e), w1)
           | None \<Rightarrow>
               (case batchSpan r of
                  None \<Rightarrow> Panics
                | Some bspan \<Rightarrow> Returns ((SpanContextOf (tracer w1) (Some bspan), None), w1)))
      | Blocks \<Rightarrow> Blocks
      | Panics \<Rightarrow> Panics
      | Fatal \<Rightarrow> Fatal)"

definition PublishOrderBatchWithOpenSpan ::
  "(nat \<Rightarrow> EnvStep) \<Rightarrow> Context \<Rightarrow> int \<Rightarrow> World \<Rightarrow> (PublishResult \<times> World) outcome" where
  "PublishOrderBatchWithOpenSpan env ctx count w = publishInternal env ctx count True w"

text \<open>
  producer.go holds a second listing of \<open>PublishOrderBatch\<close>, which does not go through
  \<open>publishInternal\<close>: it ends every item span inside the loop and the batch span by
  \<open>defer\<close>. It is \<open>PublishOrderBatch_direct\<close> here, with its loop.
\<close>

definition publishItem_direct ::
  "(nat \<Rightarrow> EnvStep) \<Rightarrow> nat \<Rightarrow> nat \<Rightarrow> LoopState \<Rightarrow> LoopState option" where
  "publishItem_direct env bspan i st =
     (let e = env i;
          order = newOrder e i;
          (pubSpan, t1) = Start (Some bspan) ''PublishOrder'' SpanKindInternal (orderAttrs order) []
                            (tracer (pw st));
          q1 = (queue (pw st))\<lparr>messages := drop (consumed e) (messages (queue (pw st)))\<rparr>;
          d1 = (ctxDone (pw st) \<or> cancelNow e)
      in case Publish (SpanContextOf t1 (Some pubSpan)) d1 (pickSend e) order q1 of
           None \<Rightarrow> None
         | Some (Some err, q2) \<Rightarrow>
             Some (st\<lparr>pw := (pw st)\<lparr>tracer := End pubSpan (RecordError pubSpan (Some err) t1),
                                     queue := q2, ctxDone := d1\<rparr>,
                       lastErr := Some (ErrPublishOrder (ID order) err)\<rparr>)
         | Some (None, q2) \<Rightarrow>
             Some (st\<lparr>pw := (pw st)\<lparr>tracer := End pubSpan t1, queue := q2, ctxDone := d1\<rparr>,
                       publishedCount := publishedCount st + 1\<rparr>))"

fun publishLoop_direct ::
  "(nat \<Rightarrow> EnvStep) \<Rightarrow> nat \<Rightarrow> nat \<Rightarrow> nat \<Rightarrow> LoopState \<Rightarrow> LoopState option" where
  "publishLoop_direct env bspan i 0 st = Some st"
| "publishLoop_direct env bspan i (Suc n) st =
     (case publishItem_direct env bspan i st of
        None \<Rightarrow> None
      | Some st1 \<Rightarrow> publishLoop_direct env bspan (Suc i) n st1)"

definition PublishOrderBatch_direct ::
  "(nat \<Rightarrow> EnvStep) \<Rightarrow> Context \<Rightarrow> int \<Rightarrow> World \<Rightarrow> ((SpanContext \<times> error option) \<times> World) outcome" where
  "PublishOrderBatch_direct env ctx count w =
     (if count \<le> 0 then Returns ((emptySpanContext, Some ErrBatchSize), w)
      else
        let (bspan, t0) = Start ctx ''PublishOrderBatch'' SpanKindProducer
                           [(''order.batch.size'', IntValue count)] [] (tracer w)
        in case publishLoop_direct env bspan 0 (nat count)
                  \<lparr>pw = w\<lparr>tracer := t0\<rparr>, publishedCount = 0, orderSpans = [], lastErr = None\<rparr> of
             None \<Rightarrow> Blocks
           | Some st \<Rightarrow>
               if publishedCount st = 0
               then
                 let t1 = RecordError bspan (lastErr st) (tracer (pw st))
                 in Returns ((emptySpanContext, Some (ErrPublishAny (lastErr st))),
                             (pw st)\<lparr>tracer := End bspan t1\<rparr>)
               else
                 let t1 = AddEvent bspan ''Batch published''
                            [(''published.count'', IntValue (int (publishedCount st))),
                             (''total.count'', IntValue count)] (tracer (pw st))
                 in Returns ((SpanContextOf t1 (Some bspan), None),
                             (pw st)\<lparr>tracer := End bspan t1\<rparr>))"

section \<open>The worker\<close>

text \<open>
  The three steps of the pipeline each open a child span, wait and end it; in this
  program they never fail.
\<close>

definition validateOrder :: "Context \<Rightarrow> Order \<Rightarrow> Tracer \<Rightarrow> error option \<times> Tracer" where
  "validateOrder ctx order t =
     (let (s, t1) = Start ctx ''ValidateOrder'' SpanKindUnspecified [] [] t
      in (None, End s t1))"

definition processPayment :: "Context \<Rightarrow> Order \<Rightarrow> Tracer \<Rightarrow> error option \<times> Tracer" where
  "processPayment ctx order t =
     (let (s, t1) = Start ctx ''ProcessPayment'' SpanKindUnspecified
                      [(''payment.amount'', Float64Value (Amount order))] [] t
      in (None, End s t1))"

definition shipOrder :: "Context \<Rightarrow> Order \<Rightarrow> Tracer \<Rightarrow> error option \<times> Tracer" where
  "shipOrder ctx order t =
     (let (s, t1) = Start ctx ''ShipOrder'' SpanKindUnspecified
                      [(''customer.id'', StringValue (CustomerID order))] [] t
      in (None, End s t1))"

text \<open>The non-blocking send on the side channel: dropped when the buffer is full.\<close>

definition trySend :: "OrderSpanContext \<Rightarrow> Sink option \<Rightarrow> Sink option" where
  "trySend sc sink =
     (case sink of
        None \<Rightarrow> None
      | Some k \<Rightarrow> if length (sinkBuf k) < sinkCap k then Some (k\<lparr>sinkBuf := sinkBuf k @ [sc]\<rparr>)
                  else Some k)"

text \<open>
  \<open>processOrderWithLink\<close>: the deferred calls (the counter going down, then \<open>End\<close> of
  the processing span) run at every return after the span is started. The link is built
  from whatever the carrier decodes to and handed to \<open>Start\<close>.
\<close>

definition processOrderWithLink ::
  "Context \<Rightarrow> Order \<Rightarrow> string \<Rightarrow> World \<Rightarrow> (error option \<times> World) outcome" where
  "processOrderWithLink ctx order workerID w =
     (if ID order = [] then Returns (Some ErrOrderIDRequired, w)
      else
        case SpanContextFromMessage order of
          None \<Rightarrow> Panics
        | Some originalSpanCtx \<Rightarrow>
            let link = \<lparr>LinkSpanContext = originalSpanCtx,
                        LinkAttributes = [(''link.type'', StringValue ''queue_consumption''),
                                          (''source.service'', StringValue ''producer-service'')]\<rparr>;
                (bspan, t1) = Start ctx ''ProcessOrder'' SpanKindConsumer
                               (orderAttrs order @ [(''worker.id'', StringValue workerID)]) [link]
                               (tracer w);
                w1 = w\<lparr>tracer := t1, activeOrders := activeOrders w + 1\<rparr>;
                deferred = (\<lambda>w'. w'\<lparr>tracer := End bspan (tracer w'),
                                       activeOrders := activeOrders w' - 1\<rparr>);
                (e1, t2) = validateOrder (Some bspan) order (tracer w1)
            in case e1 of
                 Some e \<Rightarrow> Returns (Some (ErrStep ''validation failed'' e),
                                     deferred (w1\<lparr>tracer := RecordError bspan (Some e) t2\<rparr>))
               | None \<Rightarrow>
                  (let (e2, t3) = processPayment (Some bspan) order t2
                   in case e2 of
                        Some e \<Rightarrow> Returns (Some (ErrStep ''payment processing failed'' e),
                                            deferred (w1\<lparr>tracer := RecordError bspan (Some e) t3\<rparr>))
                      | None \<Rightarrow>
                         (let (e3, t4) = shipOrder (Some bspan) order t3
                          in case e3 of
                               Some e \<Rightarrow> Returns (Some (ErrStep ''shipping failed'' e),
                                            deferred (w1\<lparr>tracer := RecordError bspan (Some e) t4\<rparr>))
                             | None \<Rightarrow>
                                 Returns (None,
                                   deferred (w1\<lparr>tracer := t4,
                                       spanCtxSink := trySend \<lparr>OrderID = ID order,
                                                                Ctx = SpanContextOf t4 (Some bspan)\<rparr>
                                                        (spanCtxSink w1)\<rparr>)))))"

section \<open>Collecting forward links\<close>

text \<open>
  The loop of \<open>runForwardSingleBatch\<close> that waits for the workers' records. Its third
  argument lists the records the \<open>select\<close> receives, in order, until the timeout or the
  cancellation fires; the loop stops earlier once \<open>produced\<close> valid records are held.
\<close>

fun collectLoop :: "nat \<Rightarrow> OrderSpanContext list \<Rightarrow> OrderSpanContext list \<Rightarrow> OrderSpanContext list" where
  "collectLoop produced collected [] = collected"
| "collectLoop produced collected (sc # rest) =
     (if length collected < produced
      then collectLoop produced (if IsValid (Ctx sc) then collected @ [sc] else collected) rest
      else collected)"

definition forwardLink :: "OrderSpanContext \<Rightarrow> Link" where
  "forwardLink sc =
     \<lparr>LinkSpanContext = Ctx sc,
      LinkAttributes = [(''link.direction'', StringValue ''forward''),
                        (''link.type'', StringValue ''forward_to_consumer''),
                        (''link.level'', StringValue ''order''),
                        (''order.id'', StringValue (OrderID sc))]\<rparr>"

text \<open>\<open>for _, sc := range collected\<close>: link, end and clear the span of the record's order.\<close>

fun addForwardLinks ::
  "OrderSpanContext list \<Rightarrow> (string \<times> nat option) list \<times> Tracer
     \<Rightarrow> (string \<times> nat option) list \<times> Tracer" where
  "addForwardLinks [] (m, t) = (m, t)"
| "addForwardLinks (sc # rest) (m, t) =
     (case map_of m (OrderID sc) of
        Some (Some pubSpan) \<Rightarrow>
          addForwardLinks rest
            (AList.update (OrderID sc) None m, End pubSpan (AddLink pubSpan (forwardLink sc) t))
      | _ \<Rightarrow> addForwardLinks rest (m, t))"

text \<open>
  \<open>for oid, s := range orderSpans\<close>: end what is left. The entries are visited in the
  order of the list, given as the first argument; the second is the map being updated.
\<close>

fun endRemaining ::
  "(string \<times> nat option) list \<Rightarrow> (string \<times> nat option) list \<times> Tracer
     \<Rightarrow> (string \<times> nat option) list \<times> Tracer" where
  "endRemaining [] (m, t) = (m, t)"
| "endRemaining ((oid, None) # rest) (m, t) = endRemaining rest (m, t)"
| "endRemaining ((oid, Some s) # rest) (m, t) =
     endRemaining rest (AList.update oid None m, End s t)"

text \<open>
  The part of \<open>runForwardSingleBatch\<close> after the batch is published: from the collection
  loop to \<open>cancel()\<close>. \<open>rcv\<close> is as for \<open>collectLoop\<close>.
\<close>

definition collectForward ::
  "PublishResult \<Rightarrow> OrderSpanContext list \<Rightarrow> World \<Rightarrow> World outcome" where
  "collectForward r rcv w =
     (let collected = collectLoop (published r) [] rcv;
          (m1, t1) = addForwardLinks collected (itemSpans r, tracer w);
          (m2, t2) = endRemaining m1 (m1, t1)
      in case batchSpan r of
           None \<Rightarrow> Panics
         | Some b \<Rightarrow> Returns (w\<lparr>tracer := End b t2, ctxDone := True\<rparr>))"

definition DefaultBatchSize :: int where
  "DefaultBatchSize = 10"

definition runForwardSingleBatch ::
  "(nat \<Rightarrow> EnvStep) \<Rightarrow> Context \<Rightarrow> OrderSpanContext list \<Rightarrow> World \<Rightarrow> World outcome" where
  "runForwardSingleBatch env ctx rcv w =
     (case PublishOrderBatchWithOpenSpan env ctx DefaultBatchSize w of
        Returns (r, w1) \<Rightarrow>
          (case failure r of
             Some e \<Rightarrow> Fatal
           | None \<Rightarrow> collectForward r rcv w1)
      | Blocks \<Rightarrow> Blocks
      | Panics \<Rightarrow> Panics
      | Fatal \<Rightarrow> Fatal)"

section \<open>The retry chain\<close>

text \<open>
  The example keeps the tracer and the list of the durations passed to \<open>time.Sleep\<close>,
  in nanoseconds and in the order of the calls. \<open>rnd\<close> gives the value drawn by
  \<open>rand.Float32\<close> in each attempt.
\<close>

record Example =
  xtracer :: Tracer
  slept :: "int list"

definition Millisecond :: int where
  "Millisecond = 1000000"

definition Sleep :: "int \<Rightarrow> Example \<Rightarrow> Example" where
  "Sleep d x = x\<lparr>slept := slept x @ [d]\<rparr>"

definition simulateProcessing :: "nat \<Rightarrow> int \<Rightarrow> real \<Rightarrow> Example \<Rightarrow> bool \<times> Example" where
  "simulateProcessing s attempt r x =
     (let x1 = Sleep (50 * Millisecond) x
      in if attempt = 1
         then (False, x1\<lparr>xtracer := SetStatus s Error ''Processing failed''
                                      (RecordError s (Some (ErrProcessing (nat attempt))) (xtracer x1))\<rparr>)
         else if r < 0.7
         then (True, x1\<lparr>xtracer := SetStatus s Ok ''Processing succeeded''
                                     (AddEvent s ''Processing succeeded''
                                        [(''status'', StringValue ''success'')] (xtracer x1))\<rparr>)
         else (False, x1\<lparr>xtracer := SetStatus s Error ''Processing failed''
                                      (RecordError s (Some (ErrProcessing (nat attempt))) (xtracer x1))\<rparr>))"

definition backoff :: "int \<Rightarrow> int" where
  "backoff attempt = attempt * 100 * Millisecond"

text \<open>
  The body of the retry loop for one attempt: the link to the original attempt is built,
  the retry span is started from the background context with that one link, the
  processing is simulated and the span is ended.
\<close>

definition retryAttempt :: "SpanContext \<Rightarrow> (int \<Rightarrow> real) \<Rightarrow> int \<Rightarrow> Example \<Rightarrow> bool \<times> Example" where
  "retryAttempt originalSpanCtx rnd attempt x =
     (let link = \<lparr>LinkSpanContext = originalSpanCtx,
                  LinkAttributes = [(''link.type'', StringValue ''retry''),
                                    (''retry.attempt'', IntValue attempt),
                                    (''original.request.id'', StringValue ''req-123'')]\<rparr>;
          (retrySpan, t1) = Start None ''ProcessRequest'' SpanKindUnspecified
                              [(''request.id'', StringValue ''req-123''),
                               (''attempt'', IntValue attempt),
                               (''is_retry'', BoolValue True)] [link] (xtracer x);
          (success, x1) = simulateProcessing retrySpan attempt (rnd attempt) (x\<lparr>xtracer := t1\<rparr>)
      in (success, x1\<lparr>xtracer := End retrySpan (xtracer x1)\<rparr>))"

text \<open>
  \<open>for attempt := 2; attempt <= maxRetries; attempt++\<close>: the loop returns at the first
  attempt that succeeds and sleeps for \<open>backoff attempt\<close> after every attempt that fails.
\<close>

function retryLoop ::
  "SpanContext \<Rightarrow> (int \<Rightarrow> real) \<Rightarrow> int \<Rightarrow> int \<Rightarrow> Example \<Rightarrow> Example" where
  "retryLoop originalSpanCtx rnd maxRetries attempt x =
     (if attempt \<le> maxRetries
      then
        let (success, x2) = retryAttempt originalSpanCtx rnd attempt x
        in if success then x2
           else retryLoop originalSpanCtx rnd maxRetries (attempt + 1) (Sleep (backoff attempt) x2)
      else x)"
  by pat_completeness auto
termination
  by (relation "measure (\<lambda>(c, r, m, a, x). nat (m + 1 - a))") auto

declare retryLoop.simps [simp del]

definition RetryExample :: "Context \<Rightarrow> (int \<Rightarrow> real) \<Rightarrow> Example \<Rightarrow> Example" where
  "RetryExample ctx rnd x =
     (let (originalSpan, t1) = Start ctx ''ProcessRequest'' SpanKindUnspecified
                                 [(''request.id'', StringValue ''req-123''),
                                  (''attempt'', IntValue 1)] [] (xtracer x);
          originalSpanCtx = SpanContextOf t1 (Some originalSpan);
          (success, x1) = simulateProcessing originalSpan 1 (rnd 1) (x\<lparr>xtracer := t1\<rparr>);
          x2 = x1\<lparr>xtracer := End originalSpan (xtracer x1)\<rparr>
      in if success then x2
         else retryLoop originalSpanCtx rnd 3 2 x2)"

section \<open>Invariants and sample inputs\<close>

text \<open>
  The state in which the loop of \<open>publishInternal\<close> starts, and the tracer after the
  event that closes a batch with at least one published item.
\<close>

definition batchStart :: "Context \<Rightarrow> int \<Rightarrow> World \<Rightarrow> LoopState" where
  "batchStart ctx count w =
     \<lparr>pw = w\<lparr>tracer := snd (Start ctx ''PublishOrderBatch'' SpanKindProducer
                               [(''order.batch.size'', IntValue count)] [] (tracer w))\<rparr>,
      publishedCount = 0, orderSpans = [], lastErr = None\<rparr>"

definition batchEvent :: "nat \<Rightarrow> int \<Rightarrow> LoopState \<Rightarrow> Tracer" where
  "batchEvent b count st =
     AddEvent b ''Batch published''
       [(''published.count'', IntValue (int (publishedCount st))), (''total.count'', IntValue count)]
       (tracer (pw st))"

text \<open>
  The invariant of the map of item spans while the loop runs: one entry per key, no nil
  value, no handle twice, and every handle is a span created after the batch span
  \<open>b\<close> with \<open>k\<close> invocations of \<open>End\<close> and no link.
\<close>

definition itemsInv :: "nat \<Rightarrow> nat \<Rightarrow> (string \<times> nat option) list \<Rightarrow> Tracer \<Rightarrow> bool" where
  "itemsInv k b m t \<longleftrightarrow>
     b < length (spans t) \<and> distinct (map fst m) \<and> distinct (map snd m) \<and> None \<notin> set (map snd m) \<and>
     (\<forall>h. Some h \<in> set (map snd m) \<longrightarrow>
        b < h \<and> h < length (spans t) \<and> endCalls (spans t ! h) = k \<and> links (spans t ! h) = [])"

text \<open>Every span after the batch span that the map does not hold has been ended once.\<close>

definition accounted :: "nat \<Rightarrow> (string \<times> nat option) list \<Rightarrow> Tracer \<Rightarrow> bool" where
  "accounted b m t \<longleftrightarrow>
     (\<forall>h. b < h \<and> h < length (spans t) \<and> Some h \<notin> set (map snd m) \<longrightarrow> endCalls (spans t ! h) = 1)"

text \<open>
  Sample inputs: an environment in which every publish goes through, one in which the
  context is cancelled before the first publish and the \<open>select\<close> takes the cancellation,
  a tracer with no span yet, and a world with an empty queue.
\<close>

definition env0 :: "nat \<Rightarrow> EnvStep" where
  "env0 i = \<lparr>uuid8 = (if i = 0 then ''3f2a9c1e'' else if i = 1 then ''9b1d4e7a'' else ''c0ffee00''),
             now = 1700000000 + i, consumed = 0, cancelNow = False, pickSend = True\<rparr>"

definition envCancel :: "nat \<Rightarrow> EnvStep" where
  "envCancel i = (env0 i)\<lparr>cancelNow := True, pickSend := False\<rparr>"

definition tracer0 :: Tracer where
  "tracer0 = \<lparr>spans = [], idgen = (\<lambda>n. (of_nat n + 1, of_nat n + 1))\<rparr>"

definition world0 :: World where
  "world0 = \<lparr>tracer = tracer0, queue = \<lparr>messages = []\<rparr>, ctxDone = False,
             spanCtxSink = None, activeOrders = 0\<rparr>"

text \<open>
  A valid identity that is not sampled, a message with no carrier yet, the same message
  as \<open>Publish\<close> stamps it under that identity, and a message whose carrier is long enough
  but holds an upper-case digit in its trace identity.
\<close>

definition unsampledCtx :: SpanContext where
  "unsampledCtx = \<lparr>TraceID = 1, SpanID = 2, TraceFlags = 0, TraceState = [], Remote = False\<rparr>"

definition order0 :: Order where
  "order0 = \<lparr>ID = ''ORDER-3f2a9c1e'', CustomerID = ''CUST-1000'', Amount = 100,
             CreatedAt = 1700000000, TraceParent = [], TraceState_msg = [], OriginalSpanID = []\<rparr>"

definition order0_stamped :: Order where
  "order0_stamped =
     order0\<lparr>OriginalSpanID := ''0000000000000002'',
            TraceParent := ''00-00000000000000000000000000000001-0000000000000002-01''\<rparr>"

definition orderUpper :: Order where
  "orderUpper =
     order0\<lparr>TraceParent := ''00-4BF92F3577B34DA6A3CE929D0E0E4736-00f067aa0ba902b7-01''\<rparr>"

text \<open>
  Sample inputs for the worker and the retry chain: a draw of the random source under
  which every retry fails, one under which the first retry succeeds, and the example's
  state before it runs.
\<close>

definition rndFail :: "int \<Rightarrow> real" where
  "rndFail attempt = 9 / 10"

definition rndOk :: "int \<Rightarrow> real" where
  "rndOk attempt = 1 / 10"

definition example0 :: Example where
  "example0 = \<lparr>xtracer = tracer0, slept = []\<rparr>"

text \<open>The link the worker builds to the context its message decodes to.\<close>

definition backwardLink :: "SpanContext \<Rightarrow> Link" where
  "backwardLink c =
     \<lparr>LinkSpanContext = c,
      LinkAttributes = [(''link.type'', StringValue ''queue_consumption''),
                        (''source.service'', StringValue ''producer-service'')]\<rparr>"


text \<open>
  What the loop leaves behind: the spans that existed are untouched, and each span it
  adds carries one link, to the original context, has been ended once and has the span
  identity the generator gives for its handle.
\<close>

definition retrySpans :: "SpanContext \<Rightarrow> Tracer \<Rightarrow> Tracer \<Rightarrow> bool" where
  "retrySpans oc t t' \<longleftrightarrow>
     length (spans t) \<le> length (spans t') \<and> idgen t' = idgen t \<and>
     (\<forall>h < length (spans t). spans t' ! h = spans t ! h) \<and>
     (\<forall>h. length (spans t) \<le> h \<and> h < length (spans t') \<longrightarrow>
        map LinkSpanContext (links (spans t' ! h)) = [oc] \<and> endCalls (spans t' ! h) = 1
        \<and> SpanID (spanContext (spans t' ! h)) = snd (idgen t h))"


text \<open>
  Sample records of the side channel: the context of a worker's span, a list of two valid
  records of which the first names the second order of \<open>env0\<close>, and a list of one record
  that names the first order of \<open>env0\<close> and carries the invalid sentinel.
\<close>

definition workerCtx :: SpanContext where
  "workerCtx = \<lparr>TraceID = 77, SpanID = 78, TraceFlags = 1, TraceState = [], Remote = False\<rparr>"

definition rcvSample :: "OrderSpanContext list" where
  "rcvSample = [\<lparr>OrderID = ''ORDER-9b1d4e7a'', Ctx = workerCtx\<rparr>,
                \<lparr>OrderID = ''ORDER-ffffffff'', Ctx = workerCtx\<rparr>]"

definition rcvInvalid :: "OrderSpanContext list" where
  "rcvInvalid = [\<lparr>OrderID = ''ORDER-3f2a9c1e'', Ctx = emptySpanContext\<rparr>]"

section \<open>The codec\<close>

lemma length_hexn: "length (hexn n k) = n"
  by (induction n arbitrary: k) auto

lemma upt16: "[0..<16] = [0,1,2,3,4,5,6,7,8,9,10,11,12,13,14,15::nat]"
  by code_simp

lemma hexval_hexdigit: "d < 16 \<Longrightarrow> hexval (hexdigit d) = Some d"
proof -
  assume "d < 16"
  then have "d \<in> set [0..<16]" by simp
  then have "d \<in> set [0,1,2,3,4,5,6,7,8,9,10,11,12,13,14,15::nat]"
    by (simp only: upt16)
  then show ?thesis
    by (auto simp: hexval_def hexdigit_def)
qed

lemma hexdec_snoc: "hexdec (s @ [c]) = hexstep c (hexdec s)"
  by (simp add: hexdec_def)

text \<open>Reading back the \<open>n\<close> digits of \<open>k\<close> gives \<open>k\<close> up to the width.\<close>

lemma hexdec_hexn: "hexdec (hexn n k) = Some (k mod 16 ^ n)"
proof (induction n arbitrary: k)
  case 0
  then show ?case by (simp add: hexdec_def)
next
  case (Suc n)
  have "hexdec (hexn (Suc n) k) = hexstep (hexdigit (k mod 16)) (Some ((k div 16) mod 16 ^ n))"
    by (simp add: hexdec_snoc Suc.IH)
  also have "\<dots> = Some (16 * ((k div 16) mod 16 ^ n) + k mod 16)"
    by (simp add: hexstep_def hexval_hexdigit)
  also have "16 * ((k div 16) mod 16 ^ n) + k mod 16 = k mod 16 ^ Suc n"
    by (simp add: mod_mult2_eq)
  finally show ?case .
qed

lemma TraceIDFromHex_String:
  "TraceIDFromHex (TraceID_String t) = (if t = 0 then Inl ErrNilTraceID else Inr t)"
proof -
  have "unat t < 2 ^ 128" using unsigned_less [of t] by simp
  then have "unat t mod 16 ^ 32 = unat t" by simp
  then show ?thesis
    by (simp add: TraceIDFromHex_def TraceID_String_def length_hexn hexdec_hexn)
qed

lemma SpanIDFromHex_String:
  "SpanIDFromHex (SpanID_String s) = (if s = 0 then Inl ErrNilSpanID else Inr s)"
proof -
  have "unat s < 2 ^ 64" using unsigned_less [of s] by simp
  then have "unat s mod 16 ^ 16 = unat s" by simp
  then show ?thesis
    by (simp add: SpanIDFromHex_def SpanID_String_def length_hexn hexdec_hexn)
qed

lemma length_TraceID_String: "length (TraceID_String t) = 32"
  by (simp add: TraceID_String_def length_hexn)

lemma length_SpanID_String: "length (SpanID_String s) = 16"
  by (simp add: SpanID_String_def length_hexn)

lemma carrier_length:
  "length (''00-'' @ TraceID_String t @ ''-'' @ SpanID_String s @ ''-01'') = 55"
  by (simp add: length_TraceID_String length_SpanID_String)

lemma carrier_trace_segment:
  "take 32 (drop 3 (''00-'' @ TraceID_String t @ ''-'' @ SpanID_String s @ ''-01'')) = TraceID_String t"
  by (simp add: length_TraceID_String)

lemma carrier_span_segment:
  "take 16 (drop 36 (''00-'' @ TraceID_String t @ ''-'' @ SpanID_String s @ ''-01'')) = SpanID_String s"
  by (simp add: length_TraceID_String length_SpanID_String)

lemma decode_carrier:
  assumes "TraceParent order = ''00-'' @ TraceID_String t @ ''-'' @ SpanID_String s @ ''-01''"
  shows "SpanContextFromMessage order =
     Some (if t = 0 \<or> s = 0 then emptySpanContext
           else \<lparr>TraceID = t, SpanID = s, TraceFlags = FlagsSampled, TraceState = [], Remote = True\<rparr>)"
  unfolding SpanContextFromMessage_def slice_def assms
  using carrier_trace_segment [of t s] carrier_span_segment [of t s] carrier_length [of t s]
  by (simp add: TraceIDFromHex_String SpanIDFromHex_String del: append.simps)

lemma TraceID_String_one: "TraceID_String 1 = ''00000000000000000000000000000001''"
  by code_simp

lemma SpanID_String_two: "SpanID_String 2 = ''0000000000000002''"
  by code_simp

lemma Publish_unsampled:
  "Publish unsampledCtx False True order0 \<lparr>messages = []\<rparr>
     = Some (None, \<lparr>messages = [order0_stamped]\<rparr>)"
  by (simp add: Publish_def Let_def unsampledCtx_def order0_stamped_def DefaultQueueCapacity_def
      TraceID_String_one SpanID_String_two)

lemma decode_order0_stamped:
  "SpanContextFromMessage order0_stamped
     = Some \<lparr>TraceID = 1, SpanID = 2, TraceFlags = 1, TraceState = [], Remote = True\<rparr>"
proof -
  have "TraceParent order0_stamped =
      ''00-'' @ TraceID_String 1 @ ''-'' @ SpanID_String 2 @ ''-01''"
    by (simp add: order0_stamped_def TraceID_String_one SpanID_String_two)
  from decode_carrier [OF this] show ?thesis
    by (simp add: FlagsSampled_def)
qed

text \<open>
  C1, as stated, at a valid identity that is not sampled: the carrier that \<open>Publish\<close>
  writes decodes to the same trace and span identity, but the flags come back as
  \<open>01\<close> where the encoded context has \<open>00\<close>.
\<close>

theorem C1_counterexample:
  "IsValid unsampledCtx
   \<and> Publish unsampledCtx False True order0 \<lparr>messages = []\<rparr> = Some (None, \<lparr>messages = [order0_stamped]\<rparr>)
   \<and> SpanContextFromMessage order0_stamped
       = Some \<lparr>TraceID = 1, SpanID = 2, TraceFlags = 1, TraceState = [], Remote = True\<rparr>
   \<and> SpanContextFromMessage order0_stamped \<noteq> Some (unsampledCtx\<lparr>Remote := True\<rparr>)"
  by (simp add: Publish_unsampled decode_order0_stamped) (simp add: IsValid_def unsampledCtx_def)

text \<open>
  C1 (amended): for every valid SpanContext, the message that \<open>Publish\<close> enqueues under it
  decodes to a SpanContext with the same trace identity and span identity, the flags
  \<open>01\<close> (sampled), an empty trace state and the remote marker set, whatever the flags and
  the trace state of the encoded context were.
\<close>

theorem C1:
  assumes "IsValid sc" and "Publish sc done pick order q = Some (None, q')"
  shows "SpanContextFromMessage (last (messages q')) =
           Some \<lparr>TraceID = TraceID sc, SpanID = SpanID sc, TraceFlags = FlagsSampled,
                 TraceState = [], Remote = True\<rparr>"
proof -
  from assms(2) obtain m where q': "messages q' = messages q @ [m]"
    and m: "TraceParent m = ''00-'' @ TraceID_String (TraceID sc) @ ''-'' @ SpanID_String (SpanID sc) @ ''-01''"
    by (auto simp: Publish_def Let_def split: if_splits)
  from decode_carrier [OF m] assms(1) show ?thesis
    by (simp add: q' IsValid_def)
qed

theorem C1_witness:
  "IsValid unsampledCtx
   \<and> Publish unsampledCtx False True order0 \<lparr>messages = []\<rparr> = Some (None, \<lparr>messages = [order0_stamped]\<rparr>)
   \<and> SpanContextFromMessage order0_stamped =
           Some \<lparr>TraceID = 1, SpanID = 2, TraceFlags = FlagsSampled, TraceState = [], Remote = True\<rparr>"
proof -
  have v: "IsValid unsampledCtx" by (simp add: IsValid_def unsampledCtx_def)
  from C1 [OF v Publish_unsampled] v show ?thesis
    by (simp add: Publish_unsampled) (simp add: unsampledCtx_def)
qed

text \<open>
  C6: decoding never panics, and it returns the invalid sentinel whenever the carrier has
  fewer than 53 characters or its trace-identity or span-identity segment fails to
  parse. The segments are characters 3 to 34 and 36 to 51 of the carrier.
\<close>

theorem C6:
  "SpanContextFromMessage order \<noteq> None \<and>
   (length (TraceParent order) < 53
      \<or> isl (TraceIDFromHex (take 32 (drop 3 (TraceParent order))))
      \<or> isl (SpanIDFromHex (take 16 (drop 36 (TraceParent order))))
    \<longrightarrow> SpanContextFromMessage order = Some emptySpanContext)"
  by (auto simp: SpanContextFromMessage_def slice_def split: sum.splits)

lemma orderUpper_trace: "TraceIDFromHex (take 32 (drop 3 (TraceParent orderUpper))) = Inl ErrInvalidHexID"
  by (simp add: orderUpper_def TraceIDFromHex_def hexdec_def hexstep_def hexval_def)

theorem C6_witness:
  "SpanContextFromMessage order0 \<noteq> None
   \<and> length (TraceParent order0) < 53
   \<and> SpanContextFromMessage order0 = Some emptySpanContext
   \<and> SpanContextFromMessage orderUpper \<noteq> None
   \<and> length (TraceParent orderUpper) = 55
   \<and> isl (TraceIDFromHex (take 32 (drop 3 (TraceParent orderUpper))))
   \<and> SpanContextFromMessage orderUpper = Some emptySpanContext"
  using C6 [of order0] C6 [of orderUpper] orderUpper_trace
  by (simp add: order0_def orderUpper_def)

text \<open>
  C10: when \<open>Publish\<close> returns an error the queue is as before; when it returns nil the
  queue holds one more message, which is the argument with new \<open>TraceParent\<close> and
  \<open>OriginalSpanID\<close> and every other field (\<open>ID\<close>, \<open>CustomerID\<close>, \<open>Amount\<close>,
  \<open>CreatedAt\<close>, \<open>TraceState\<close>) as passed, and its \<open>OriginalSpanID\<close> is the
  span-identity segment of its \<open>TraceParent\<close>.
\<close>

theorem C10:
  assumes "Publish sc done pick order q = Some (res, q')"
  shows "(if res = None
          then (\<exists>m. messages q' = messages q @ [m]
                  \<and> m = order\<lparr>TraceParent := TraceParent m, OriginalSpanID := OriginalSpanID m\<rparr>
                  \<and> OriginalSpanID m = take 16 (drop 36 (TraceParent m)))
          else q' = q)"
  using assms carrier_span_segment [of "TraceID sc" "SpanID sc"]
  by (auto simp: Publish_def Let_def simp del: append.simps split: if_splits)

theorem C10_witness:
  "Publish unsampledCtx False True order0 \<lparr>messages = []\<rparr> = Some (None, \<lparr>messages = [order0_stamped]\<rparr>)
   \<and> order0_stamped = order0\<lparr>TraceParent := TraceParent order0_stamped,
                              OriginalSpanID := OriginalSpanID order0_stamped\<rparr>
   \<and> OriginalSpanID order0_stamped = take 16 (drop 36 (TraceParent order0_stamped))"
proof -
  from C10 [OF Publish_unsampled] obtain m where a: "[order0_stamped] = [m]"
    and b: "m = order0\<lparr>TraceParent := TraceParent m, OriginalSpanID := OriginalSpanID m\<rparr>"
    and c: "OriginalSpanID m = take 16 (drop 36 (TraceParent m))"
    by auto
  from a have m: "m = order0_stamped" by simp
  show ?thesis
    by (rule conjI [OF Publish_unsampled conjI [OF b [unfolded m] c [unfolded m]]])
qed

section \<open>The tracer and the publishing loop\<close>

subsection \<open>Tracer basics\<close>

lemma Start_fst [simp]: "fst (Start ctx name kind attrs lnks t) = length (spans t)"
  by (simp add: Start_def)

lemma Start_snd_spans [simp]:
  "spans (snd (Start ctx name kind attrs lnks t)) = spans t @ [newSpan t ctx name kind attrs lnks]"
  by (simp add: Start_def)

lemma Start_snd_idgen [simp]: "idgen (snd (Start ctx name kind attrs lnks t)) = idgen t"
  by (simp add: Start_def)

lemma newSpan_fields [simp]:
  "endCalls (newSpan t ctx name kind attrs lnks) = 0"
  "links (newSpan t ctx name kind attrs lnks) = lnks"
  "recordedErrors (newSpan t ctx name kind attrs lnks) = []"
  "spanName (newSpan t ctx name kind attrs lnks) = name"
  "spanKind (newSpan t ctx name kind attrs lnks) =
     (if kind = SpanKindUnspecified then SpanKindInternal else kind)"
  by (simp_all add: newSpan_def Let_def)

lemma updSpan_length [simp]: "length (spans (updSpan h f t)) = length (spans t)"
  by (simp add: updSpan_def)

lemma updSpan_nth:
  "spans (updSpan h f t) ! k =
     (if k = h \<and> h < length (spans t) then f (spans t ! h) else spans t ! k)"
  by (cases "h < length (spans t)") (auto simp: updSpan_def nth_list_update list_update_beyond)

lemma updSpan_idgen [simp]: "idgen (updSpan h f t) = idgen t"
  by (simp add: updSpan_def)

lemma End_length [simp]: "length (spans (End h t)) = length (spans t)"
  by (simp add: End_def)

lemma End_idgen [simp]: "idgen (End h t) = idgen t"
  by (simp add: End_def)

lemma End_nth:
  "spans (End h t) ! k =
     (if k = h \<and> h < length (spans t) then (spans t ! h)\<lparr>endCalls := Suc (endCalls (spans t ! h))\<rparr>
      else spans t ! k)"
  by (simp add: End_def updSpan_nth)

lemma RecordError_length [simp]: "length (spans (RecordError h e t)) = length (spans t)"
  by (simp add: RecordError_def split: option.splits)

lemma RecordError_idgen [simp]: "idgen (RecordError h e t) = idgen t"
  by (simp add: RecordError_def split: option.splits)

lemma RecordError_nth:
  "spans (RecordError h (Some e) t) ! k =
     (if k = h \<and> h < length (spans t) \<and> endCalls (spans t ! h) = 0
      then (spans t ! h)\<lparr>recordedErrors := recordedErrors (spans t ! h) @ [e]\<rparr>
      else spans t ! k)"
  by (simp add: RecordError_def updSpan_nth)

lemma AddEvent_length [simp]: "length (spans (AddEvent h n a t)) = length (spans t)"
  by (simp add: AddEvent_def)

lemma AddEvent_idgen [simp]: "idgen (AddEvent h n a t) = idgen t"
  by (simp add: AddEvent_def)

lemma AddEvent_nth:
  "spans (AddEvent h n a t) ! k =
     (if k = h \<and> h < length (spans t) \<and> endCalls (spans t ! h) = 0
      then (spans t ! h)\<lparr>events := events (spans t ! h) @ [(n, a)]\<rparr>
      else spans t ! k)"
  by (simp add: AddEvent_def updSpan_nth)

lemma AddLink_length [simp]: "length (spans (AddLink h l t)) = length (spans t)"
  by (simp add: AddLink_def)

lemma AddLink_idgen [simp]: "idgen (AddLink h l t) = idgen t"
  by (simp add: AddLink_def)

lemma AddLink_nth:
  "spans (AddLink h l t) ! k =
     (if k = h \<and> h < length (spans t) \<and> endCalls (spans t ! h) = 0
      then (spans t ! h)\<lparr>links := links (spans t ! h) @ [l]\<rparr>
      else spans t ! k)"
  by (simp add: AddLink_def updSpan_nth)

lemma SetStatus_length [simp]: "length (spans (SetStatus h c d t)) = length (spans t)"
  by (simp add: SetStatus_def)

lemma SetStatus_idgen [simp]: "idgen (SetStatus h c d t) = idgen t"
  by (simp add: SetStatus_def)

lemma SetStatus_nth:
  "spans (SetStatus h c d t) ! k =
     (if k = h \<and> h < length (spans t) \<and> endCalls (spans t ! h) = 0
      then (spans t ! h)\<lparr>status := (c, d)\<rparr>
      else spans t ! k)"
  by (simp add: SetStatus_def updSpan_nth)

subsection \<open>One turn of the publishing loop\<close>

lemma Publish_cases:
  assumes "Publish sc d p order q = Some (res, q')"
  shows "res = None \<or> res = Some ErrContextCanceled"
  using assms by (auto simp: Publish_def Let_def split: if_splits)

text \<open>The two ways an item can go when the call returns.\<close>

lemma publishItem_cases:
  assumes "publishItem env b keepOpen i st = Some st1"
  shows "length (spans (tracer (pw st1))) = Suc (length (spans (tracer (pw st))))
     \<and> idgen (tracer (pw st1)) = idgen (tracer (pw st))
     \<and> (\<forall>k < length (spans (tracer (pw st))). spans (tracer (pw st1)) ! k = spans (tracer (pw st)) ! k)
     \<and> links (spans (tracer (pw st1)) ! length (spans (tracer (pw st)))) = []
     \<and> ((publishedCount st1 = publishedCount st
          \<and> orderSpans st1 = orderSpans st
          \<and> lastErr st1 = Some (ErrPublishOrder (ID (newOrder (env i) i)) ErrContextCanceled)
          \<and> endCalls (spans (tracer (pw st1)) ! length (spans (tracer (pw st)))) = 1)
        \<or> (publishedCount st1 = Suc (publishedCount st)
          \<and> orderSpans st1 = AList.update (ID (newOrder (env i) i))
                               (Some (length (spans (tracer (pw st))))) (orderSpans st)
          \<and> lastErr st1 = lastErr st
          \<and> endCalls (spans (tracer (pw st1)) ! length (spans (tracer (pw st))))
              = (if keepOpen then 0 else 1)))"
  using assms
  by (auto simp: publishItem_def Let_def Start_def End_nth RecordError_nth nth_append
      split: option.splits dest!: Publish_cases)

lemma publishItem_frame:
  assumes "publishItem env b keepOpen i st = Some st1"
  shows "length (spans (tracer (pw st1))) = Suc (length (spans (tracer (pw st))))"
    and "h < length (spans (tracer (pw st))) \<Longrightarrow> spans (tracer (pw st1)) ! h = spans (tracer (pw st)) ! h"
    and "idgen (tracer (pw st1)) = idgen (tracer (pw st))"
  using publishItem_cases [OF assms] by auto

lemma publishLoop_frame:
  assumes "publishLoop env b keepOpen i n st = Some st'"
  shows "length (spans (tracer (pw st'))) = length (spans (tracer (pw st))) + n
       \<and> (\<forall>h < length (spans (tracer (pw st))). spans (tracer (pw st')) ! h = spans (tracer (pw st)) ! h)"
  using assms
proof (induction n arbitrary: i st)
  case 0
  then show ?case by simp
next
  case (Suc n)
  from Suc.prems obtain st1 where 1: "publishItem env b keepOpen i st = Some st1"
    and 2: "publishLoop env b keepOpen (Suc i) n st1 = Some st'"
    by (auto split: option.splits)
  from Suc.IH [OF 2] publishItem_frame [OF 1] show ?case by auto
qed


subsection \<open>Association lists\<close>

lemma update_values_subset: "set (map snd (AList.update k v al)) \<subseteq> insert v (set (map snd al))"
  by (induction al) auto

lemma update_distinct_values:
  "distinct (map snd al) \<Longrightarrow> v \<notin> set (map snd al) \<Longrightarrow> distinct (map snd (AList.update k v al))"
proof (induction al)
  case Nil
  then show ?case by simp
next
  case (Cons p al)
  have "set (map snd (AList.update k v al)) \<subseteq> insert v (set (map snd al))"
    by (rule update_values_subset)
  with Cons show ?case by (cases p) auto
qed

lemma update_new_value: "v \<in> set (map snd (AList.update k v al))"
  by (induction al) auto

lemma update_fresh_key: "k \<notin> fst ` set al \<Longrightarrow> AList.update k v al = al @ [(k, v)]"
  by (induction al) auto

subsection \<open>Invariants of the publishing loop\<close>

lemma publishItem_itemsInv:
  assumes "publishItem env b keepOpen i st = Some st1"
    and "itemsInv (if keepOpen then 0 else 1) b (orderSpans st) (tracer (pw st))"
  shows "itemsInv (if keepOpen then 0 else 1) b (orderSpans st1) (tracer (pw st1))"
proof -
  let ?n = "length (spans (tracer (pw st)))"
  let ?k = "if keepOpen then 0 else (1::nat)"
  note c = publishItem_cases [OF assms(1)]
  note inv = assms(2) [unfolded itemsInv_def]
  from c have len: "length (spans (tracer (pw st1))) = Suc ?n" by simp
  from c have old: "\<And>h. h < ?n \<Longrightarrow> spans (tracer (pw st1)) ! h = spans (tracer (pw st)) ! h" by simp
  from inv have fresh: "Some ?n \<notin> set (map snd (orderSpans st))" by auto
  from c consider
    (failed) "orderSpans st1 = orderSpans st"
  | (sent) "orderSpans st1 = AList.update (ID (newOrder (env i) i)) (Some ?n) (orderSpans st)"
      "endCalls (spans (tracer (pw st1)) ! ?n) = ?k"
    by auto
  then show ?thesis
  proof cases
    case failed
    with inv len old show ?thesis
      unfolding itemsInv_def by auto
  next
    case sent
    have sub: "set (map snd (orderSpans st1)) \<subseteq> insert (Some ?n) (set (map snd (orderSpans st)))"
      unfolding sent(1) by (rule update_values_subset)
    have d: "distinct (map snd (orderSpans st1))"
      unfolding sent(1) using inv fresh by (intro update_distinct_values) auto
    have k: "distinct (map fst (orderSpans st1))"
      unfolding sent(1) using inv by (simp add: distinct_update)
    have nn: "None \<notin> set (map snd (orderSpans st1))"
      using sub inv by auto
    have each: "b < h \<and> h < length (spans (tracer (pw st1))) \<and> endCalls (spans (tracer (pw st1)) ! h) = ?k
          \<and> links (spans (tracer (pw st1)) ! h) = []"
      if "Some h \<in> set (map snd (orderSpans st1))" for h
    proof (cases "h = ?n")
      case True
      with c sent(2) inv len show ?thesis by auto
    next
      case False
      with that sub have "Some h \<in> set (map snd (orderSpans st))" by auto
      with inv have "b < h \<and> h < ?n \<and> endCalls (spans (tracer (pw st)) ! h) = ?k
          \<and> links (spans (tracer (pw st)) ! h) = []" by blast
      with old [of h] len show ?thesis by simp
    qed
    from inv len have "b < length (spans (tracer (pw st1)))" by simp
    with d k nn each show ?thesis
      unfolding itemsInv_def by blast
  qed
qed

lemma publishLoop_itemsInv:
  assumes "publishLoop env b keepOpen i n st = Some st'"
    and "itemsInv (if keepOpen then 0 else 1) b (orderSpans st) (tracer (pw st))"
  shows "itemsInv (if keepOpen then 0 else 1) b (orderSpans st') (tracer (pw st'))"
  using assms
proof (induction n arbitrary: i st)
  case 0
  then show ?case by simp
next
  case (Suc n)
  from Suc.prems(1) obtain st1 where 1: "publishItem env b keepOpen i st = Some st1"
    and 2: "publishLoop env b keepOpen (Suc i) n st1 = Some st'"
    by (auto split: option.splits)
  from Suc.IH [OF 2 publishItem_itemsInv [OF 1 Suc.prems(2)]] show ?case .
qed

text \<open>The count of published items and the last error.\<close>

lemma publishLoop_count:
  assumes "publishLoop env b keepOpen i n st = Some st'"
  shows "publishedCount st \<le> publishedCount st'
     \<and> (publishedCount st' = publishedCount st \<longrightarrow>
          orderSpans st' = orderSpans st
          \<and> (if n = 0 then lastErr st' = lastErr st
              else lastErr st' = Some (ErrPublishOrder (ID (newOrder (env (i + n - 1)) (i + n - 1)))
                                        ErrContextCanceled)))"
  using assms
proof (induction n arbitrary: i st)
  case 0
  then show ?case by simp
next
  case (Suc n)
  from Suc.prems(1) obtain st1 where 1: "publishItem env b keepOpen i st = Some st1"
    and 2: "publishLoop env b keepOpen (Suc i) n st1 = Some st'"
    by (auto split: option.splits)
  from Suc.IH [OF 2] publishItem_cases [OF 1] show ?case
    by (cases n) auto
qed

lemmas eval_defs = publishInternal_def publishItem_def env0_def envCancel_def world0_def tracer0_def
  Start_def Publish_def Let_def newOrder_def orderAttrs_def SpanContextOf_def End_def
  RecordError_def AddEvent_def updSpan_def DefaultQueueCapacity_def newSpan_def

subsection \<open>endAll\<close>

lemma endAll_spec:
  assumes "distinct (map snd l)" and "None \<notin> set (map snd l)"
  shows "\<exists>t'. endAll l t = Some t' \<and> length (spans t') = length (spans t) \<and> idgen t' = idgen t \<and>
           (\<forall>h. spans t' ! h =
              (if Some h \<in> set (map snd l) \<and> h < length (spans t)
               then (spans t ! h)\<lparr>endCalls := Suc (endCalls (spans t ! h))\<rparr>
               else spans t ! h))"
  using assms
proof (induction l arbitrary: t)
  case Nil
  then show ?case by simp
next
  case (Cons p l)
  obtain oid s where p: "p = (oid, Some s)"
    using Cons.prems(2) by (cases p; cases "snd p") auto
  from Cons.prems have d: "distinct (map snd l)" "None \<notin> set (map snd l)" "Some s \<notin> set (map snd l)"
    by (auto simp: p)
  from Cons.IH [OF d(1,2), of "End s t"] obtain t' where
    t': "endAll l (End s t) = Some t'" "length (spans t') = length (spans t)" "idgen t' = idgen t"
      "\<And>h. spans t' ! h =
              (if Some h \<in> set (map snd l) \<and> h < length (spans t)
               then (spans (End s t) ! h)\<lparr>endCalls := Suc (endCalls (spans (End s t) ! h))\<rparr>
               else spans (End s t) ! h)"
    by auto
  show ?case
    using t'(1,2,3) d(3) by (auto simp: p t'(4) End_nth)
qed

text \<open>
  Go visits the entries of a map in no fixed order. The result of the final loop of a
  closed batch does not depend on the order of the visits: two lists without repeated
  values that hold the same values, as a list and any reordering of it do, give the same
  tracer.
\<close>

lemma endAll_order:
  assumes s: "set (map snd l') = set (map snd l)" and d': "distinct (map snd l')"
    and "distinct (map snd l)" and "None \<notin> set (map snd l)"
  shows "endAll l' t = endAll l t"
proof -
  from s assms(4) have n': "None \<notin> set (map snd l')" by simp
  from endAll_spec [OF assms(3,4), of t] obtain a where
    a: "endAll l t = Some a" "length (spans a) = length (spans t)" "idgen a = idgen t"
      "\<And>h. spans a ! h =
              (if Some h \<in> set (map snd l) \<and> h < length (spans t)
               then (spans t ! h)\<lparr>endCalls := Suc (endCalls (spans t ! h))\<rparr>
               else spans t ! h)"
    by blast
  from endAll_spec [OF d' n', of t] obtain b where
    b: "endAll l' t = Some b" "length (spans b) = length (spans t)" "idgen b = idgen t"
      "\<And>h. spans b ! h =
              (if Some h \<in> set (map snd l') \<and> h < length (spans t)
               then (spans t ! h)\<lparr>endCalls := Suc (endCalls (spans t ! h))\<rparr>
               else spans t ! h)"
    by blast
  from s have s': "snd ` set l' = snd ` set l" by simp
  have "spans b = spans a"
    by (rule nth_equalityI) (simp_all add: a(2,4) b(2,4) s')
  with a(3) b(3) have "b = a" by simp
  with a(1) b(1) show ?thesis by simp
qed

text \<open>
  C9: for every count less than or equal to zero, \<open>publishInternal\<close> (in either mode),
  \<open>PublishOrderBatch\<close> and the second listing of \<open>PublishOrderBatch\<close> return the
  invalid-argument error at once, and the world is as before: no span is created and no
  message is enqueued.
\<close>

theorem C9:
  assumes "count \<le> 0"
  shows "publishInternal env ctx count keepOpen w =
           Returns (\<lparr>batchSpan = None, itemSpans = [], published = 0, failure = Some ErrBatchSize\<rparr>, w)
       \<and> PublishOrderBatch env ctx count w = Returns ((emptySpanContext, Some ErrBatchSize), w)
       \<and> PublishOrderBatch_direct env ctx count w = Returns ((emptySpanContext, Some ErrBatchSize), w)"
  using assms by (simp add: publishInternal_def PublishOrderBatch_def PublishOrderBatch_direct_def)

text \<open>
  C9 at the counts 0 and -3.
\<close>

theorem C9_witness:
  "publishInternal env0 None 0 True world0 =
           Returns (\<lparr>batchSpan = None, itemSpans = [], published = 0, failure = Some ErrBatchSize\<rparr>, world0)
       \<and> PublishOrderBatch env0 None (- 3) world0 = Returns ((emptySpanContext, Some ErrBatchSize), world0)
       \<and> PublishOrderBatch_direct env0 None 0 world0 = Returns ((emptySpanContext, Some ErrBatchSize), world0)"
  using C9 [of 0 env0 None True world0] C9 [of "- 3" env0 None True world0] by simp

text \<open>What publishInternal returns, in terms of the state of the loop.\<close>

lemma publishInternal_loop:
  assumes "publishInternal env ctx count keepOpen w = Returns (r, w')" and "0 < count"
  obtains st where
    "publishLoop env (length (spans (tracer w))) keepOpen 0 (nat count) (batchStart ctx count w) = Some st"
  using assms
  by (auto simp: publishInternal_def batchStart_def Let_def Start_def split: option.splits)

lemma publishInternal_result:
  assumes "publishLoop env (length (spans (tracer w))) keepOpen 0 (nat count) (batchStart ctx count w) = Some st"
    and "0 < count"
  shows "publishInternal env ctx count keepOpen w =
     (if publishedCount st = 0
      then Returns (\<lparr>batchSpan = Some (length (spans (tracer w))), itemSpans = orderSpans st,
                     published = 0, failure = Some (ErrPublishAny (lastErr st))\<rparr>,
                    (pw st)\<lparr>tracer :=
                       (if keepOpen then RecordError (length (spans (tracer w))) (lastErr st) (tracer (pw st))
                        else End (length (spans (tracer w)))
                               (RecordError (length (spans (tracer w))) (lastErr st) (tracer (pw st))))\<rparr>)
      else if keepOpen
      then Returns (\<lparr>batchSpan = Some (length (spans (tracer w))), itemSpans = orderSpans st,
                     published = publishedCount st, failure = None\<rparr>,
                    (pw st)\<lparr>tracer := batchEvent (length (spans (tracer w))) count st\<rparr>)
      else (case endAll (orderSpans st)
                  (End (length (spans (tracer w))) (batchEvent (length (spans (tracer w))) count st)) of
              None \<Rightarrow> Panics
            | Some t2 \<Rightarrow>
                Returns (\<lparr>batchSpan = Some (length (spans (tracer w))), itemSpans = orderSpans st,
                          published = publishedCount st, failure = None\<rparr>,
                         (pw st)\<lparr>tracer := t2\<rparr>)))"
  using assms
  by (simp add: publishInternal_def batchStart_def batchEvent_def Let_def Start_def)

lemma publishLoop_nonempty:
  assumes "publishLoop env b keepOpen i n st = Some st'"
    and "0 < publishedCount st \<longrightarrow> orderSpans st \<noteq> []"
  shows "0 < publishedCount st' \<longrightarrow> orderSpans st' \<noteq> []"
  using assms
proof (induction n arbitrary: i st)
  case 0
  then show ?case by simp
next
  case (Suc n)
  from Suc.prems(1) obtain st1 where 1: "publishItem env b keepOpen i st = Some st1"
    and 2: "publishLoop env b keepOpen (Suc i) n st1 = Some st'"
    by (auto split: option.splits)
  have "0 < publishedCount st1 \<longrightarrow> orderSpans st1 \<noteq> []"
    using publishItem_cases [OF 1] Suc.prems(2)
      update_new_value [of "Some (length (spans (tracer (pw st))))" "ID (newOrder (env i) i)" "orderSpans st"]
    by auto
  from Suc.IH [OF 2 this] show ?case .
qed

lemma batch_span_after_loop:
  assumes "publishLoop env (length (spans (tracer w))) keepOpen 0 n (batchStart ctx count w) = Some st"
  shows "length (spans (tracer w)) < length (spans (tracer (pw st)))"
    and "endCalls (spans (tracer (pw st)) ! length (spans (tracer w))) = 0"
    and "recordedErrors (spans (tracer (pw st)) ! length (spans (tracer w))) = []"
    and "itemsInv (if keepOpen then 0 else 1) (length (spans (tracer w))) (orderSpans st) (tracer (pw st))"
proof -
  let ?st0 = "batchStart ctx count w"
  have f: "length (spans (tracer (pw st))) = length (spans (tracer (pw ?st0))) + n"
    "\<And>h. h < length (spans (tracer (pw ?st0))) \<Longrightarrow>
        spans (tracer (pw st)) ! h = spans (tracer (pw ?st0)) ! h"
    using publishLoop_frame [OF assms] by auto
  from f(1) show "length (spans (tracer w)) < length (spans (tracer (pw st)))"
    by (simp add: batchStart_def)
  from f(2) [of "length (spans (tracer w))"]
  show "endCalls (spans (tracer (pw st)) ! length (spans (tracer w))) = 0"
    and "recordedErrors (spans (tracer (pw st)) ! length (spans (tracer w))) = []"
    by (simp_all add: batchStart_def)
  have "itemsInv (if keepOpen then 0 else 1) (length (spans (tracer w))) (orderSpans ?st0) (tracer (pw ?st0))"
    by (simp add: itemsInv_def batchStart_def)
  from publishLoop_itemsInv [OF assms this]
  show "itemsInv (if keepOpen then 0 else 1) (length (spans (tracer w))) (orderSpans st) (tracer (pw st))" .
qed

text \<open>
  C8 (amended): if a batch of positive size returns with no item published, the batch
  span has recorded the error of the last item, the call returns an error that wraps it,
  and in closed mode the batch span is ended once and \<open>PublishOrderBatch\<close> returns that
  error; in open mode \<open>End\<close> has not been invoked on the batch span when the call
  returns.
\<close>

theorem C8:
  assumes "0 < count"
    and "publishInternal env ctx count keepOpen w = Returns (r, w')"
    and "published r = 0"
  shows "batchSpan r = Some (length (spans (tracer w)))
     \<and> failure r = Some (ErrPublishAny (Some (ErrPublishOrder
           (ID (newOrder (env (nat count - 1)) (nat count - 1))) ErrContextCanceled)))
     \<and> recordedErrors (spans (tracer w') ! length (spans (tracer w)))
         = [ErrPublishOrder (ID (newOrder (env (nat count - 1)) (nat count - 1))) ErrContextCanceled]
     \<and> endCalls (spans (tracer w') ! length (spans (tracer w))) = (if keepOpen then 0 else 1)
     \<and> (if keepOpen then True
         else PublishOrderBatch env ctx count w = Returns ((emptySpanContext, failure r), w'))"
proof -
  let ?b = "length (spans (tracer w))"
  let ?e = "ErrPublishOrder (ID (newOrder (env (nat count - 1)) (nat count - 1))) ErrContextCanceled"
  from assms(2,1) obtain st where
    loop: "publishLoop env ?b keepOpen 0 (nat count) (batchStart ctx count w) = Some st"
    by (rule publishInternal_loop)
  note res = publishInternal_result [OF loop assms(1)]
  have z: "publishedCount st = 0"
    using assms(2,3) res by (auto split: if_splits option.splits)
  from publishLoop_count [OF loop] z assms(1) have le: "lastErr st = Some ?e"
    by (auto simp: batchStart_def split: if_splits)
  note bs = batch_span_after_loop [OF loop]
  from assms(2) res z le have r: "batchSpan r = Some ?b" "failure r = Some (ErrPublishAny (Some ?e))"
    and t: "tracer w' = (if keepOpen then RecordError ?b (Some ?e) (tracer (pw st))
                         else End ?b (RecordError ?b (Some ?e) (tracer (pw st))))"
    by auto
  have 2: "recordedErrors (spans (tracer w') ! ?b) = [?e]"
    using bs(1,2,3) by (simp add: t End_nth RecordError_nth)
  have 3: "endCalls (spans (tracer w') ! ?b) = (if keepOpen then 0 else 1)"
    using bs(1,2,3) by (simp add: t End_nth RecordError_nth)
  have 4: "PublishOrderBatch env ctx count w = Returns ((emptySpanContext, failure r), w')"
    if "\<not> keepOpen"
    using that assms(2) r by (simp add: PublishOrderBatch_def)
  from r 2 3 4 show ?thesis by simp
qed

text \<open>
  C8, as stated, in open mode: with the context cancelled before the only item is
  published, the call returns an error with nothing published, and \<open>End\<close> has not been
  invoked on the batch span.
\<close>

theorem C8_counterexample:
  "(case publishInternal envCancel None 1 True world0 of
      Returns (r, w') \<Rightarrow> published r = 0 \<and> failure r \<noteq> None \<and> batchSpan r = Some 0
                         \<and> endCalls (spans (tracer w') ! 0) = 0
    | _ \<Rightarrow> False)"
  by (simp add: eval_defs)

text \<open>Evaluation at the sample inputs.\<close>

lemma eval_cancel_closed:
  "\<exists>r w'. publishInternal envCancel None 2 False world0 = Returns (r, w') \<and> published r = 0"
  by (simp add: eval_defs numeral_2_eq_2)

text \<open>
  C8 (amended) at a closed batch of two items published under a cancelled context.
\<close>

theorem C8_witness:
  "\<exists>r w'. publishInternal envCancel None 2 False world0 = Returns (r, w') \<and> published r = 0
      \<and> failure r = Some (ErrPublishAny (Some (ErrPublishOrder ''ORDER-9b1d4e7a'' ErrContextCanceled)))
      \<and> recordedErrors (spans (tracer w') ! 0) = [ErrPublishOrder ''ORDER-9b1d4e7a'' ErrContextCanceled]
      \<and> endCalls (spans (tracer w') ! 0) = 1"
proof -
  from eval_cancel_closed obtain r w' where
    e: "publishInternal envCancel None 2 False world0 = Returns (r, w')" "published r = 0"
    by blast
  have "(0::int) < 2" by simp
  from C8 [OF this e] e show ?thesis
    by (auto simp: newOrder_def envCancel_def env0_def world0_def tracer0_def)
qed

text \<open>
  C3 on the code: when \<open>publishInternal\<close> returns without error in closed mode, the batch
  span has been ended once, and every span in the returned map of item spans, of which
  there is at least one, has had \<open>End\<close> invoked twice: once inside the loop and once by
  the final loop over the map.
\<close>

theorem C3:
  assumes "publishInternal env ctx count False w = Returns (r, w')"
    and "failure r = None"
  shows "itemSpans r \<noteq> []
     \<and> endCalls (spans (tracer w') ! length (spans (tracer w))) = 1
     \<and> (\<forall>e \<in> set (itemSpans r). \<exists>h. snd e = Some h \<and> length (spans (tracer w)) < h
            \<and> h < length (spans (tracer w')) \<and> endCalls (spans (tracer w') ! h) = 2)"
proof -
  let ?b = "length (spans (tracer w))"
  have c: "0 < count"
    using assms by (cases "0 < count") (auto simp: publishInternal_def)
  from assms(1) c obtain st where
    loop: "publishLoop env ?b False 0 (nat count) (batchStart ctx count w) = Some st"
    by (rule publishInternal_loop)
  note res = publishInternal_result [OF loop c]
  let ?t1 = "End ?b (batchEvent ?b count st)"
  from assms res have pos: "0 < publishedCount st"
    by (cases "publishedCount st") auto
  with assms(1) res have i: "itemSpans r = orderSpans st"
    and t: "endAll (orderSpans st) ?t1 = Some (tracer w')"
    by (auto split: option.splits)
  note bs = batch_span_after_loop [OF loop]
  from bs(4) have inv: "distinct (map snd (orderSpans st))" "None \<notin> set (map snd (orderSpans st))"
    "\<And>h. Some h \<in> set (map snd (orderSpans st)) \<Longrightarrow>
        ?b < h \<and> h < length (spans (tracer (pw st))) \<and> endCalls (spans (tracer (pw st)) ! h) = 1"
    by (auto simp: itemsInv_def)
  from endAll_spec [OF inv(1,2), of ?t1] t have
    len: "length (spans (tracer w')) = length (spans (tracer (pw st)))"
    and nth: "\<And>h. spans (tracer w') ! h =
              (if Some h \<in> set (map snd (orderSpans st)) \<and> h < length (spans ?t1)
               then (spans ?t1 ! h)\<lparr>endCalls := Suc (endCalls (spans ?t1 ! h))\<rparr>
               else spans ?t1 ! h)"
    by (auto simp: batchEvent_def)
  have ne: "itemSpans r \<noteq> []"
    using publishLoop_nonempty [OF loop] pos i by (simp add: batchStart_def)
  have nb: "Some ?b \<notin> set (map snd (orderSpans st))"
    using inv(3) [of ?b] by auto
  have batch: "endCalls (spans (tracer w') ! ?b) = 1"
    using nb bs(1,2) unfolding nth by (simp add: End_nth AddEvent_nth batchEvent_def)
  have each: "\<exists>h. snd e = Some h \<and> ?b < h \<and> h < length (spans (tracer w'))
      \<and> endCalls (spans (tracer w') ! h) = 2" if "e \<in> set (itemSpans r)" for e
  proof -
    from that i have m: "snd e \<in> set (map snd (orderSpans st))" by auto
    with inv(2) obtain h where h: "snd e = Some h" by (cases "snd e") auto
    from inv(3) [of h] m h have "?b < h" "h < length (spans (tracer (pw st)))"
      "endCalls (spans (tracer (pw st)) ! h) = 1" by auto
    with m h len show ?thesis
      unfolding nth by (simp add: End_nth AddEvent_nth batchEvent_def)
  qed
  from ne batch each show ?thesis by blast
qed

lemma eval_closed_one:
  "\<exists>r w'. publishInternal env0 None 1 False world0 = Returns (r, w') \<and> failure r = None
      \<and> itemSpans r = [(''ORDER-3f2a9c1e'', Some 1)] \<and> length (spans (tracer w')) = 2"
  by (simp add: eval_defs)

text \<open>
  C3 on the code, at a closed batch of one item that is published: \<open>End\<close> is invoked
  twice on the item span.
\<close>

theorem C3_witness:
  "\<exists>r w'. publishInternal env0 None 1 False world0 = Returns (r, w') \<and> failure r = None
      \<and> itemSpans r = [(''ORDER-3f2a9c1e'', Some 1)]
      \<and> endCalls (spans (tracer w') ! 0) = 1 \<and> endCalls (spans (tracer w') ! 1) = 2"
proof -
  from eval_closed_one obtain r w' where
    e: "publishInternal env0 None 1 False world0 = Returns (r, w')" "failure r = None"
    and i: "itemSpans r = [(''ORDER-3f2a9c1e'', Some 1)]"
    by blast
  from C3 [OF e] e i show ?thesis
    by (auto simp: world0_def tracer0_def)
qed

section \<open>Collecting forward links\<close>

subsection \<open>The collection loop\<close>

lemma collectLoop_conv:
  "collectLoop p acc rcv =
     (if p \<le> length acc then acc
      else acc @ take (p - length acc) (filter (\<lambda>sc. IsValid (Ctx sc)) rcv))"
proof (induction rcv arbitrary: acc)
  case Nil
  then show ?case by simp
next
  case (Cons sc rcv)
  show ?case
  proof (cases "length acc < p")
    case False
    then show ?thesis by simp
  next
    case True
    then obtain k where k: "p - length acc = Suc k"
      by (cases "p - length acc") auto
    then have "p - Suc (length acc) = k" by simp
    with True k show ?thesis
      by (auto simp: Cons.IH)
  qed
qed

subsection \<open>Association lists with nil entries\<close>

lemma update_keys: "k \<in> fst ` set al \<Longrightarrow> map fst (AList.update k v al) = map fst al"
  by (induction al) auto

lemma count_value:
  assumes "distinct (map fst l)"
    and "\<And>o1 o2. (o1, v) \<in> set l \<Longrightarrow> (o2, v) \<in> set l \<Longrightarrow> o1 = o2"
  shows "count_list (map snd l) v = (if v \<in> snd ` set l then 1 else 0)"
  using assms
proof (induction l)
  case Nil
  then show ?case by simp
next
  case (Cons p l)
  obtain k u where p: "p = (k, u)" by (cases p)
  from Cons.prems have d: "distinct (map fst l)" and k: "k \<notin> fst ` set l"
    by (auto simp: p)
  have inj: "\<And>o1 o2. (o1, v) \<in> set l \<Longrightarrow> (o2, v) \<in> set l \<Longrightarrow> o1 = o2"
    using Cons.prems(2) by auto
  note ih = Cons.IH [OF d inj]
  show ?case
  proof (cases "u = v")
    case True
    have "v \<notin> snd ` set l"
    proof
      assume "v \<in> snd ` set l"
      then obtain o2 where o2: "(o2, v) \<in> set l" by auto
      with Cons.prems(2) [of k o2] True have "k = o2" by (simp add: p)
      with o2 k show False by force
    qed
    with ih True show ?thesis by (simp add: p)
  next
    case False
    with ih show ?thesis by (auto simp: p)
  qed
qed

subsection \<open>Linking the collected records\<close>

lemma addForwardLinks_length:
  "length (spans (snd (addForwardLinks cs (m, t)))) = length (spans t)"
  by (induction cs arbitrary: m t) (auto split: option.splits)

lemma addForwardLinks_keys:
  "map fst (fst (addForwardLinks cs (m, t))) = map fst m"
proof (induction cs arbitrary: m t)
  case Nil
  then show ?case by simp
next
  case (Cons c cs)
  show ?case
  proof (cases "map_of m (OrderID c)")
    case None
    then show ?thesis by (simp add: Cons.IH)
  next
    case (Some v)
    then have "OrderID c \<in> fst ` set m"
      by (metis domI dom_map_of_conv_image_fst)
    with Some show ?thesis
      by (cases v) (simp_all add: Cons.IH update_keys)
  qed
qed

text \<open>A span that no entry of the map holds is left alone.\<close>

lemma addForwardLinks_untouched:
  assumes "\<And>oid. map_of m oid \<noteq> Some (Some h)"
  shows "spans (snd (addForwardLinks cs (m, t))) ! h = spans t ! h"
  using assms
proof (induction cs arbitrary: m t)
  case Nil
  then show ?case by simp
next
  case (Cons c cs)
  show ?case
  proof (cases "map_of m (OrderID c)")
    case None
    then show ?thesis by (simp add: Cons.IH [OF Cons.prems])
  next
    case (Some v)
    show ?thesis
    proof (cases v)
      case None
      with Some show ?thesis by (simp add: Cons.IH [OF Cons.prems])
    next
      case (Some p)
      with \<open>map_of m (OrderID c) = Some v\<close> Cons.prems [of "OrderID c"] have ph: "p \<noteq> h" by auto
      have "\<And>oid. map_of (AList.update (OrderID c) None m) oid \<noteq> Some (Some h)"
        using Cons.prems by (simp add: update_conv')
      from Cons.IH [OF this] ph Some \<open>map_of m (OrderID c) = Some v\<close> show ?thesis
        by (simp add: End_nth AddLink_nth)
    qed
  qed
qed

text \<open>An entry that is nil stays nil, and an entry that holds a span held it from the start.\<close>

lemma addForwardLinks_None:
  assumes "map_of m oid = Some None"
  shows "map_of (fst (addForwardLinks cs (m, t))) oid = Some None"
  using assms
proof (induction cs arbitrary: m t)
  case Nil
  then show ?case by simp
next
  case (Cons c cs)
  have "map_of (AList.update (OrderID c) None m) oid = Some None"
    using Cons.prems by (simp add: update_conv')
  from Cons.IH [OF this] Cons.IH [OF Cons.prems] show ?case
    by (auto split: option.splits)
qed

lemma addForwardLinks_Some:
  assumes "map_of (fst (addForwardLinks cs (m, t))) oid = Some (Some h)"
  shows "map_of m oid = Some (Some h)"
  using assms
proof (induction cs arbitrary: m t)
  case Nil
  then show ?case by simp
next
  case (Cons c cs)
  show ?case
  proof (cases "\<exists>p. map_of m (OrderID c) = Some (Some p)")
    case False
    with Cons.prems have "map_of (fst (addForwardLinks cs (m, t))) oid = Some (Some h)"
      by (auto split: option.splits)
    from Cons.IH [OF this] show ?thesis .
  next
    case True
    then obtain p where p: "map_of m (OrderID c) = Some (Some p)" by blast
    with Cons.prems have "map_of (fst (addForwardLinks cs
        (AList.update (OrderID c) None m, End p (AddLink p (forwardLink c) t)))) oid = Some (Some h)"
      by simp
    from Cons.IH [OF this] show ?thesis
      by (simp add: update_conv' split: if_splits)
  qed
qed

text \<open>
  The span of an order that the map holds: it is linked and ended by the first collected
  record that names the order, and left as it is when no record does.
\<close>

lemma addForwardLinks_entry:
  assumes "\<And>o1 o2 p. map_of m o1 = Some (Some p) \<Longrightarrow> map_of m o2 = Some (Some p) \<Longrightarrow> o1 = o2"
    and "map_of m oid = Some (Some h)"
  shows "case find (\<lambda>c. OrderID c = oid) cs of
           None \<Rightarrow> map_of (fst (addForwardLinks cs (m, t))) oid = Some (Some h)
                   \<and> spans (snd (addForwardLinks cs (m, t))) ! h = spans t ! h
         | Some c \<Rightarrow> map_of (fst (addForwardLinks cs (m, t))) oid = Some None
                   \<and> spans (snd (addForwardLinks cs (m, t))) ! h
                       = spans (End h (AddLink h (forwardLink c) t)) ! h"
  using assms
proof (induction cs arbitrary: m t)
  case Nil
  then show ?case by simp
next
  case (Cons c cs)
  show ?case
  proof (cases "OrderID c = oid")
    case True
    let ?m = "AList.update oid None m"
    let ?t = "End h (AddLink h (forwardLink c) t)"
    have step: "addForwardLinks (c # cs) (m, t) = addForwardLinks cs (?m, ?t)"
      using True Cons.prems(2) by simp
    have n: "map_of ?m oid = Some None" by (simp add: update_conv')
    have u: "\<And>k. map_of ?m k \<noteq> Some (Some h)"
      using Cons.prems(1) [OF _ Cons.prems(2)] by (auto simp: update_conv')
    from addForwardLinks_None [OF n, where cs = cs and t = ?t]
      addForwardLinks_untouched [OF u, where cs = cs and t = ?t] True
    show ?thesis
      unfolding step by simp
  next
    case False
    show ?thesis
    proof (cases "\<exists>p. map_of m (OrderID c) = Some (Some p)")
      case False
      then have step: "addForwardLinks (c # cs) (m, t) = addForwardLinks cs (m, t)"
        by (auto split: option.splits)
      from Cons.IH [OF Cons.prems, where t = t] \<open>OrderID c \<noteq> oid\<close> show ?thesis
        unfolding step by simp
    next
      case True
      then obtain p where p: "map_of m (OrderID c) = Some (Some p)" by blast
      let ?m = "AList.update (OrderID c) None m"
      let ?t = "End p (AddLink p (forwardLink c) t)"
      have step: "addForwardLinks (c # cs) (m, t) = addForwardLinks cs (?m, ?t)"
        using p by simp
      have ph: "p \<noteq> h"
      proof
        assume "p = h"
        with Cons.prems(1) [of "OrderID c" h oid] p Cons.prems(2) have "OrderID c = oid" by simp
        with \<open>OrderID c \<noteq> oid\<close> show False by simp
      qed
      have inj: "\<And>o1 o2 q. map_of ?m o1 = Some (Some q) \<Longrightarrow> map_of ?m o2 = Some (Some q) \<Longrightarrow> o1 = o2"
        using Cons.prems(1) by (auto simp: update_conv' split: if_splits)
      have e: "map_of ?m oid = Some (Some h)"
        using Cons.prems(2) \<open>OrderID c \<noteq> oid\<close> by (simp add: update_conv')
      have same: "spans ?t ! h = spans t ! h" "length (spans ?t) = length (spans t)"
        using ph by (simp_all add: End_nth AddLink_nth)
      then have same': "spans (End h (AddLink h l ?t)) ! h = spans (End h (AddLink h l t)) ! h" for l
        by (simp add: End_nth AddLink_nth)
      from Cons.IH [OF inj e, where t = ?t] \<open>OrderID c \<noteq> oid\<close> show ?thesis
        unfolding step by (auto simp: same same' split: option.splits)
    qed
  qed
qed

subsection \<open>Ending what is left\<close>

lemma endRemaining_length:
  "length (spans (snd (endRemaining l (m, t)))) = length (spans t)"
  by (induction l "(m, t)" arbitrary: m t rule: endRemaining.induct) auto

text \<open>Each visit of an entry that holds a span adds one invocation of \<open>End\<close>, and nothing else.\<close>

lemma endRemaining_nth:
  assumes "h < length (spans t)"
  shows "spans (snd (endRemaining l (m, t))) ! h
           = (spans t ! h)\<lparr>endCalls := endCalls (spans t ! h) + count_list (map snd l) (Some h)\<rparr>"
  using assms
  by (induction l "(m, t)" arbitrary: m t rule: endRemaining.induct) (auto simp: End_nth)

lemma endRemaining_idgen:
  "idgen (snd (endRemaining l (m, t))) = idgen t"
  by (induction l "(m, t)" arbitrary: m t rule: endRemaining.induct) auto

text \<open>
  Go visits the entries of a map in no fixed order. The tracer that the loop over what is
  left produces does not depend on the order of the visits: two lists that hold every
  value equally often, as a list and any reordering of it do, give the same tracer.
\<close>

lemma endRemaining_order:
  assumes "\<And>v. count_list (map snd l') v = count_list (map snd l) v"
  shows "snd (endRemaining l' (m', t)) = snd (endRemaining l (m, t))"
proof -
  let ?a = "snd (endRemaining l' (m', t))"
  let ?b = "snd (endRemaining l (m, t))"
  have "spans ?a = spans ?b"
  proof (rule nth_equalityI)
    show "length (spans ?a) = length (spans ?b)"
      by (simp add: endRemaining_length)
  next
    fix h
    assume "h < length (spans ?a)"
    then have "h < length (spans t)" by (simp add: endRemaining_length)
    then show "spans ?a ! h = spans ?b ! h"
      by (simp add: endRemaining_nth assms)
  qed
  moreover have "idgen ?a = idgen ?b"
    by (simp add: endRemaining_idgen)
  ultimately show ?thesis by simp
qed

subsection \<open>Open batches\<close>

text \<open>
  When the identities of the items differ, no entry of the map is overwritten: the map
  holds every published item, and every other item span has been ended once.
\<close>

lemma publishItem_accounted:
  assumes item: "publishItem env b True i st = Some st1"
    and inv: "itemsInv 0 b (orderSpans st) (tracer (pw st))"
    and acc: "accounted b (orderSpans st) (tracer (pw st))"
    and keys: "fst ` set (orderSpans st) \<subseteq> (\<lambda>j. ID (newOrder (env j) j)) ` {..<i}"
    and len: "length (orderSpans st) = publishedCount st"
    and inj: "inj_on (\<lambda>j. uuid8 (env j)) {..i}"
  shows "accounted b (orderSpans st1) (tracer (pw st1))
     \<and> fst ` set (orderSpans st1) \<subseteq> (\<lambda>j. ID (newOrder (env j) j)) ` {..<Suc i}
     \<and> length (orderSpans st1) = publishedCount st1"
proof -
  let ?n = "length (spans (tracer (pw st)))"
  let ?k = "ID (newOrder (env i) i)"
  note c = publishItem_cases [OF item]
  from c have l1: "length (spans (tracer (pw st1))) = Suc ?n" by simp
  from c have old: "\<And>h. h < ?n \<Longrightarrow> spans (tracer (pw st1)) ! h = spans (tracer (pw st)) ! h" by simp
  have fresh: "?k \<notin> fst ` set (orderSpans st)"
  proof
    assume "?k \<in> fst ` set (orderSpans st)"
    with keys obtain j where j: "j < i" "?k = ID (newOrder (env j) j)" by auto
    then have "uuid8 (env i) = uuid8 (env j)" by (simp add: newOrder_def)
    with inj j(1) have "i = j" by (auto dest: inj_onD)
    with j(1) show False by simp
  qed
  from c consider
    (failed) "orderSpans st1 = orderSpans st" "publishedCount st1 = publishedCount st"
      "endCalls (spans (tracer (pw st1)) ! ?n) = 1"
  | (sent) "orderSpans st1 = AList.update ?k (Some ?n) (orderSpans st)"
      "publishedCount st1 = Suc (publishedCount st)"
    by auto
  then show ?thesis
  proof cases
    case failed
    have "accounted b (orderSpans st1) (tracer (pw st1))"
      unfolding accounted_def
    proof (intro allI impI)
      fix h
      assume h: "b < h \<and> h < length (spans (tracer (pw st1))) \<and> Some h \<notin> set (map snd (orderSpans st1))"
      show "endCalls (spans (tracer (pw st1)) ! h) = 1"
      proof (cases "h = ?n")
        case True
        with failed(3) show ?thesis by simp
      next
        case False
        with h l1 have "h < ?n" by simp
        with h acc failed(1) old [of h] show ?thesis by (simp add: accounted_def)
      qed
    qed
    with failed keys len show ?thesis by (auto simp: lessThan_Suc)
  next
    case sent
    have app: "orderSpans st1 = orderSpans st @ [(?k, Some ?n)]"
      unfolding sent(1) using fresh by (rule update_fresh_key)
    have "accounted b (orderSpans st1) (tracer (pw st1))"
      unfolding accounted_def
    proof (intro allI impI)
      fix h
      assume h: "b < h \<and> h < length (spans (tracer (pw st1))) \<and> Some h \<notin> set (map snd (orderSpans st1))"
      with app have "h \<noteq> ?n" "Some h \<notin> set (map snd (orderSpans st))" by auto
      with h l1 have "h < ?n" by simp
      with h acc \<open>Some h \<notin> set (map snd (orderSpans st))\<close> old [of h]
      show "endCalls (spans (tracer (pw st1)) ! h) = 1" by (simp add: accounted_def)
    qed
    with app sent(2) keys len show ?thesis by (auto simp: lessThan_Suc)
  qed
qed

lemma publishLoop_accounted:
  assumes "publishLoop env b True i n st = Some st'"
    and "itemsInv 0 b (orderSpans st) (tracer (pw st))"
    and "accounted b (orderSpans st) (tracer (pw st))"
    and "fst ` set (orderSpans st) \<subseteq> (\<lambda>j. ID (newOrder (env j) j)) ` {..<i}"
    and "length (orderSpans st) = publishedCount st"
    and "inj_on (\<lambda>j. uuid8 (env j)) {..<i + n}"
  shows "accounted b (orderSpans st') (tracer (pw st')) \<and> length (orderSpans st') = publishedCount st'"
  using assms
proof (induction n arbitrary: i st)
  case 0
  then show ?case by simp
next
  case (Suc n)
  from Suc.prems(1) obtain st1 where 1: "publishItem env b True i st = Some st1"
    and 2: "publishLoop env b True (Suc i) n st1 = Some st'"
    by (auto split: option.splits)
  have inj1: "inj_on (\<lambda>j. uuid8 (env j)) {..i}"
    by (rule inj_on_subset [OF Suc.prems(6)]) auto
  have inj2: "inj_on (\<lambda>j. uuid8 (env j)) {..<Suc i + n}"
    using Suc.prems(6) by simp
  from publishItem_itemsInv [OF 1] Suc.prems(2)
  have inv1: "itemsInv 0 b (orderSpans st1) (tracer (pw st1))" by simp
  from publishItem_accounted [OF 1 Suc.prems(2,3,4,5) inj1]
  have a1: "accounted b (orderSpans st1) (tracer (pw st1))"
    and k1: "fst ` set (orderSpans st1) \<subseteq> (\<lambda>j. ID (newOrder (env j) j)) ` {..<Suc i}"
    and l1: "length (orderSpans st1) = publishedCount st1"
    by auto
  from Suc.IH [OF 2 inv1 a1 k1 l1 inj2] show ?case .
qed

subsection \<open>The collection phase\<close>

text \<open>
  From a batch whose map of item spans is in order (every entry an open, unlinked span
  created after the batch span \<open>b\<close>, itself not yet ended): the phase returns; the batch
  span and every span of the map end up ended once; a span of the map carries the
  forward link of the first collected record that names its order, or no link when no
  record does; every other span is left as it was.
\<close>

lemma collectForward_spec:
  assumes b: "batchSpan r = Some b"
    and inv: "itemsInv 0 b (itemSpans r) (tracer w1)"
    and b0: "endCalls (spans (tracer w1) ! b) = 0"
  shows "\<exists>w2. collectForward r rcv w1 = Returns w2
      \<and> length (spans (tracer w2)) = length (spans (tracer w1))
      \<and> endCalls (spans (tracer w2) ! b) = 1
      \<and> (\<forall>e \<in> set (itemSpans r). \<exists>h. snd e = Some h
            \<and> endCalls (spans (tracer w2) ! h) = 1
            \<and> links (spans (tracer w2) ! h)
                = (case find (\<lambda>c. OrderID c = fst e) (collectLoop (published r) [] rcv) of
                     None \<Rightarrow> [] | Some c \<Rightarrow> [forwardLink c]))
      \<and> (\<forall>h. h < length (spans (tracer w1)) \<and> h \<noteq> b \<and> Some h \<notin> set (map snd (itemSpans r))
            \<longrightarrow> spans (tracer w2) ! h = spans (tracer w1) ! h)"
proof -
  let ?m = "itemSpans r"
  let ?t = "tracer w1"
  let ?cs = "collectLoop (published r) [] rcv"
  let ?m2 = "fst (addForwardLinks ?cs (?m, ?t))"
  let ?t2 = "snd (addForwardLinks ?cs (?m, ?t))"
  let ?t3 = "snd (endRemaining ?m2 (?m2, ?t2))"
  let ?w2 = "w1\<lparr>tracer := End b ?t3, ctxDone := True\<rparr>"
  from inv have bl: "b < length (spans ?t)" and dk: "distinct (map fst ?m)"
    and dv: "distinct (map snd ?m)" and nn: "None \<notin> set (map snd ?m)"
    and each: "\<And>h. Some h \<in> set (map snd ?m) \<Longrightarrow>
        b < h \<and> h < length (spans ?t) \<and> endCalls (spans ?t ! h) = 0 \<and> links (spans ?t ! h) = []"
    by (auto simp: itemsInv_def)
  have ret: "collectForward r rcv w1 = Returns ?w2"
    by (simp add: collectForward_def Let_def split_beta b)
  have l2: "length (spans ?t2) = length (spans ?t)"
    by (rule addForwardLinks_length)
  have l3: "length (spans ?t3) = length (spans ?t)"
    using endRemaining_length [of ?m2 ?m2 ?t2] l2 by simp
  have dk2: "distinct (map fst ?m2)"
    using dk by (simp add: addForwardLinks_keys)
  have inj: "o1 = o2" if "map_of ?m o1 = Some (Some p)" "map_of ?m o2 = Some (Some p)" for o1 o2 p
  proof -
    from that have m1: "(o1, Some p) \<in> set ?m" and m2: "(o2, Some p) \<in> set ?m"
      by (auto dest: map_of_SomeD)
    from dv have i: "inj_on snd (set ?m)"
      by (simp add: distinct_map)
    from inj_onD [OF i _ m1 m2] show ?thesis by simp
  qed
  have origin: "map_of ?m k = Some (Some p)" if "(k, Some p) \<in> set ?m2" for k p
  proof -
    from that dk2 have "map_of ?m2 k = Some (Some p)" by simp
    then show ?thesis by (rule addForwardLinks_Some)
  qed
  have cnt: "count_list (map snd ?m2) (Some h) = (if Some h \<in> snd ` set ?m2 then 1 else 0)" for h
  proof (rule count_value [OF dk2])
    fix o1 o2
    assume "(o1, Some h) \<in> set ?m2" "(o2, Some h) \<in> set ?m2"
    then have "map_of ?m o1 = Some (Some h)" "map_of ?m o2 = Some (Some h)"
      by (auto dest: origin)
    then show "o1 = o2" by (rule inj)
  qed
  have t3: "spans ?t3 ! h
      = (spans ?t2 ! h)\<lparr>endCalls := endCalls (spans ?t2 ! h) + (if Some h \<in> snd ` set ?m2 then 1 else 0)\<rparr>"
    if "h < length (spans ?t)" for h
    using endRemaining_nth [of h ?t2 ?m2 ?m2] that l2 by (simp only: cnt)
  have outside: "spans ?t3 ! h = spans ?t ! h"
    if "h < length (spans ?t)" "Some h \<notin> set (map snd ?m)" for h
  proof -
    have no: "\<And>oid. map_of ?m oid \<noteq> Some (Some h)"
      using that(2) by (force dest: map_of_SomeD)
    then have 2: "spans ?t2 ! h = spans ?t ! h"
      by (rule addForwardLinks_untouched)
    have "Some h \<notin> snd ` set ?m2"
      using no origin by force
    with t3 [OF that(1)] 2 show ?thesis by simp
  qed
  have nb: "Some b \<notin> set (map snd ?m)"
    using each [of b] by auto
  have batch: "endCalls (spans (tracer ?w2) ! b) = 1"
    using outside [OF bl nb] bl b0 l3 by (simp add: End_nth)
  have entry: "\<exists>h. snd e = Some h \<and> endCalls (spans (tracer ?w2) ! h) = 1
      \<and> links (spans (tracer ?w2) ! h)
          = (case find (\<lambda>c. OrderID c = fst e) ?cs of None \<Rightarrow> [] | Some c \<Rightarrow> [forwardLink c])"
    if e: "e \<in> set ?m" for e
  proof -
    obtain oid v where ev: "e = (oid, v)" by (cases e)
    with e nn obtain h where v: "v = Some h" by (cases v) force+
    from e ev v have mem: "Some h \<in> set (map snd ?m)" by force
    note eh = each [OF mem]
    from e ev v dk have mo: "map_of ?m oid = Some (Some h)" by simp
    from eh have hb: "h \<noteq> b" and hl: "h < length (spans ?t)" by auto
    note en = addForwardLinks_entry [of ?m oid h ?cs ?t, OF inj mo]
    show ?thesis
    proof (cases "find (\<lambda>c. OrderID c = oid) ?cs")
      case None
      with en have m2: "map_of ?m2 oid = Some (Some h)" and s2: "spans ?t2 ! h = spans ?t ! h"
        by simp_all
      from m2 have "Some h \<in> snd ` set ?m2"
        by (force dest: map_of_SomeD)
      with t3 [OF hl] s2 eh have "endCalls (spans ?t3 ! h) = 1" "links (spans ?t3 ! h) = []"
        by simp_all
      with hb None show ?thesis
        by (simp add: ev v End_nth)
    next
      case (Some c)
      with en have m2: "map_of ?m2 oid = Some None"
        and s2: "spans ?t2 ! h = spans (End h (AddLink h (forwardLink c) ?t)) ! h"
        by simp_all
      have "Some h \<notin> snd ` set ?m2"
      proof
        assume "Some h \<in> snd ` set ?m2"
        then obtain k where k: "(k, Some h) \<in> set ?m2" by force
        from origin [OF k] mo have "k = oid" by (rule inj)
        with k dk2 have "map_of ?m2 oid = Some (Some h)" by simp
        with m2 show False by simp
      qed
      with t3 [OF hl] s2 eh hl
      have "endCalls (spans ?t3 ! h) = 1" "links (spans ?t3 ! h) = [forwardLink c]"
        by (simp_all add: End_nth AddLink_nth)
      with hb Some show ?thesis
        by (simp add: ev v End_nth)
    qed
  qed
  have rest: "spans (tracer ?w2) ! h = spans ?t ! h"
    if "h < length (spans ?t) \<and> h \<noteq> b \<and> Some h \<notin> set (map snd ?m)" for h
    using that outside [of h] by (simp add: End_nth)
  have len: "length (spans (tracer ?w2)) = length (spans ?t)"
    using l3 by simp
  show ?thesis
    apply (rule exI [of _ ?w2])
    apply (intro conjI ballI allI impI)
        apply (rule ret)
       apply (rule len)
      apply (rule batch)
     apply (erule entry)
    apply (erule rest)
    done
qed

subsection \<open>An open batch and its collection phase\<close>

lemma itemsInv_AddEvent:
  assumes "itemsInv k b m t"
  shows "itemsInv k b m (AddEvent b name attrs t)"
proof -
  from assms have "\<And>h. Some h \<in> set (map snd m) \<Longrightarrow> h \<noteq> b"
    by (auto simp: itemsInv_def)
  with assms show ?thesis
    by (auto simp: itemsInv_def AddEvent_nth)
qed

lemma open_batch_Returns:
  assumes pub: "PublishOrderBatchWithOpenSpan env ctx count w = Returns (r, w1)"
    and ok: "failure r = None"
  obtains st where "0 < count"
    and "publishLoop env (length (spans (tracer w))) True 0 (nat count) (batchStart ctx count w) = Some st"
    and "batchSpan r = Some (length (spans (tracer w)))"
    and "itemSpans r = orderSpans st"
    and "published r = publishedCount st"
    and "tracer w1 = batchEvent (length (spans (tracer w))) count st"
proof -
  let ?b = "length (spans (tracer w))"
  from pub have p: "publishInternal env ctx count True w = Returns (r, w1)"
    by (simp add: PublishOrderBatchWithOpenSpan_def)
  have c: "0 < count"
    using p ok by (cases "0 < count") (auto simp: publishInternal_def)
  from p c obtain st where
    loop: "publishLoop env ?b True 0 (nat count) (batchStart ctx count w) = Some st"
    by (rule publishInternal_loop)
  note res = publishInternal_result [OF loop c]
  from p ok res have pos: "0 < publishedCount st"
    by (cases "publishedCount st") auto
  with p res have "batchSpan r = Some ?b" "itemSpans r = orderSpans st"
    "published r = publishedCount st" "tracer w1 = batchEvent ?b count st"
    by auto
  with c loop show ?thesis by (rule that)
qed

text \<open>
  An open batch followed by the collection phase, for any batch size, any environment and
  any records received.
\<close>

lemma forward_batch:
  assumes pub: "PublishOrderBatchWithOpenSpan env ctx count w = Returns (r, w1)"
    and ok: "failure r = None"
  shows "\<exists>w2. collectForward r rcv w1 = Returns w2
      \<and> (count = DefaultBatchSize \<longrightarrow> runForwardSingleBatch env ctx rcv w = Returns w2)
      \<and> collectLoop (published r) [] rcv = take (published r) (filter (\<lambda>sc. IsValid (Ctx sc)) rcv)
      \<and> endCalls (spans (tracer w2) ! length (spans (tracer w))) = 1
      \<and> (\<forall>e \<in> set (itemSpans r). \<exists>h. snd e = Some h
            \<and> length (spans (tracer w)) < h \<and> h < length (spans (tracer w2))
            \<and> endCalls (spans (tracer w2) ! h) = 1
            \<and> links (spans (tracer w2) ! h)
                = (case find (\<lambda>c. OrderID c = fst e) (collectLoop (published r) [] rcv) of
                     None \<Rightarrow> [] | Some c \<Rightarrow> [forwardLink c]))
      \<and> (inj_on (\<lambda>j. uuid8 (env j)) {..<nat count} \<longrightarrow>
            length (itemSpans r) = published r
            \<and> (\<forall>h. length (spans (tracer w)) \<le> h \<and> h < length (spans (tracer w2))
                  \<longrightarrow> endCalls (spans (tracer w2) ! h) = 1))"
proof -
  let ?b = "length (spans (tracer w))"
  from pub ok obtain st where c: "0 < count"
    and loop: "publishLoop env ?b True 0 (nat count) (batchStart ctx count w) = Some st"
    and rb: "batchSpan r = Some ?b"
    and ri: "itemSpans r = orderSpans st"
    and rp: "published r = publishedCount st"
    and t1: "tracer w1 = batchEvent ?b count st"
    by (rule open_batch_Returns)
  note bs = batch_span_after_loop [OF loop]
  from bs(4) have inv0: "itemsInv 0 ?b (orderSpans st) (tracer (pw st))" by simp
  have inv: "itemsInv 0 ?b (itemSpans r) (tracer w1)"
    unfolding ri t1 batchEvent_def by (rule itemsInv_AddEvent [OF inv0])
  have b0: "endCalls (spans (tracer w1) ! ?b) = 0"
    using bs(2) by (simp add: t1 batchEvent_def AddEvent_nth)
  from collectForward_spec [OF rb inv b0, of rcv] obtain w2 where
    ret: "collectForward r rcv w1 = Returns w2"
    and len: "length (spans (tracer w2)) = length (spans (tracer w1))"
    and batch: "endCalls (spans (tracer w2) ! ?b) = 1"
    and entries: "\<forall>e \<in> set (itemSpans r). \<exists>h. snd e = Some h
            \<and> endCalls (spans (tracer w2) ! h) = 1
            \<and> links (spans (tracer w2) ! h)
                = (case find (\<lambda>c. OrderID c = fst e) (collectLoop (published r) [] rcv) of
                     None \<Rightarrow> [] | Some c \<Rightarrow> [forwardLink c])"
    and rest: "\<forall>h. h < length (spans (tracer w1)) \<and> h \<noteq> ?b \<and> Some h \<notin> set (map snd (itemSpans r))
            \<longrightarrow> spans (tracer w2) ! h = spans (tracer w1) ! h"
    by blast
  have run: "runForwardSingleBatch env ctx rcv w = Returns w2" if "count = DefaultBatchSize"
    using that pub ok ret by (simp add: runForwardSingleBatch_def)
  have col: "collectLoop (published r) [] rcv = take (published r) (filter (\<lambda>sc. IsValid (Ctx sc)) rcv)"
    by (simp add: collectLoop_conv)
  have entry: "\<exists>h. snd e = Some h \<and> ?b < h \<and> h < length (spans (tracer w2))
            \<and> endCalls (spans (tracer w2) ! h) = 1
            \<and> links (spans (tracer w2) ! h)
                = (case find (\<lambda>c. OrderID c = fst e) (collectLoop (published r) [] rcv) of
                     None \<Rightarrow> [] | Some c \<Rightarrow> [forwardLink c])"
    if e: "e \<in> set (itemSpans r)" for e
  proof -
    from entries e obtain h where h: "snd e = Some h" "endCalls (spans (tracer w2) ! h) = 1"
      "links (spans (tracer w2) ! h)
         = (case find (\<lambda>c. OrderID c = fst e) (collectLoop (published r) [] rcv) of
              None \<Rightarrow> [] | Some c \<Rightarrow> [forwardLink c])"
      by blast
    from e h(1) have "Some h \<in> set (map snd (itemSpans r))" by force
    with inv have "?b < h" "h < length (spans (tracer w1))"
      by (auto simp: itemsInv_def)
    with h len show ?thesis by simp
  qed
  have all: "length (itemSpans r) = published r
       \<and> (\<forall>h. ?b \<le> h \<and> h < length (spans (tracer w2)) \<longrightarrow> endCalls (spans (tracer w2) ! h) = 1)"
    if inj: "inj_on (\<lambda>j. uuid8 (env j)) {..<nat count}"
  proof -
    have i0: "itemsInv 0 ?b (orderSpans (batchStart ctx count w)) (tracer (pw (batchStart ctx count w)))"
      by (simp add: itemsInv_def batchStart_def)
    have a0: "accounted ?b (orderSpans (batchStart ctx count w)) (tracer (pw (batchStart ctx count w)))"
      by (simp add: accounted_def batchStart_def)
    have k0: "fst ` set (orderSpans (batchStart ctx count w)) \<subseteq> (\<lambda>j. ID (newOrder (env j) j)) ` {..<0}"
      by (simp add: batchStart_def)
    have l0: "length (orderSpans (batchStart ctx count w)) = publishedCount (batchStart ctx count w)"
      by (simp add: batchStart_def)
    from inj have j0: "inj_on (\<lambda>j. uuid8 (env j)) {..<0 + nat count}" by simp
    from publishLoop_accounted [OF loop i0 a0 k0 l0 j0]
    have acc: "accounted ?b (orderSpans st) (tracer (pw st))"
      and ln: "length (orderSpans st) = publishedCount st"
      by simp_all
    have one: "endCalls (spans (tracer w2) ! h) = 1"
      if h: "?b \<le> h \<and> h < length (spans (tracer w2))" for h
    proof (cases "h = ?b")
      case True
      with batch show ?thesis by simp
    next
      case False
      show ?thesis
      proof (cases "Some h \<in> set (map snd (itemSpans r))")
        case True
        then obtain e where e: "e \<in> set (itemSpans r)" "snd e = Some h" by auto
        from entry [OF e(1)] e(2) show ?thesis by auto
      next
        case notin: False
        from h len have hl: "h < length (spans (tracer w1))" by simp
        with rest False notin have "spans (tracer w2) ! h = spans (tracer w1) ! h" by blast
        also have "\<dots> = spans (tracer (pw st)) ! h"
          using False by (simp add: t1 batchEvent_def AddEvent_nth)
        finally have same: "spans (tracer w2) ! h = spans (tracer (pw st)) ! h" .
        from hl have "h < length (spans (tracer (pw st)))"
          by (simp add: t1 batchEvent_def)
        with acc h False notin have "endCalls (spans (tracer (pw st)) ! h) = 1"
          by (simp add: accounted_def ri)
        with same show ?thesis by simp
      qed
    qed
    from ln ri rp one show ?thesis by simp
  qed
  show ?thesis
    apply (rule exI [of _ w2])
    apply (intro conjI ballI impI)
          apply (rule ret)
         apply (erule run)
        apply (rule col)
       apply (rule batch)
      apply (erule entry)
     apply (erule all [THEN conjunct1])
    apply (erule all [THEN conjunct2])
    done
qed

text \<open>Evaluation at the sample inputs.\<close>

lemma eval_open_two:
  "\<exists>r w1. PublishOrderBatchWithOpenSpan env0 None 2 world0 = Returns (r, w1) \<and> failure r = None
      \<and> itemSpans r = [(''ORDER-3f2a9c1e'', Some 1), (''ORDER-9b1d4e7a'', Some 2)]
      \<and> published r = 2"
  by (simp add: PublishOrderBatchWithOpenSpan_def eval_defs numeral_2_eq_2)

lemma eval_open_one:
  "\<exists>r w1. PublishOrderBatchWithOpenSpan env0 None 1 world0 = Returns (r, w1) \<and> failure r = None
      \<and> itemSpans r = [(''ORDER-3f2a9c1e'', Some 1)] \<and> published r = 1"
  by (simp add: PublishOrderBatchWithOpenSpan_def eval_defs)

lemma env0_distinct: "inj_on (\<lambda>j. uuid8 (env0 j)) {..<nat 2}"
  by (auto simp: inj_on_def env0_def less_Suc_eq numeral_2_eq_2)

text \<open>
  C2, as stated, at a batch of one item and a received record that names its order but
  carries the invalid sentinel: the record is not collected, so the item span gets no
  forward link; it is ended once by the loop over what is left.
\<close>

theorem C2_counterexample:
  "OrderID (hd rcvInvalid) = ''ORDER-3f2a9c1e''
   \<and> (case PublishOrderBatchWithOpenSpan env0 None 1 world0 of
        Returns (r, w1) \<Rightarrow>
          failure r = None \<and> itemSpans r = [(''ORDER-3f2a9c1e'', Some 1)]
          \<and> (case collectForward r rcvInvalid w1 of
                Returns w2 \<Rightarrow> links (spans (tracer w2) ! 1) = []
                               \<and> endCalls (spans (tracer w2) ! 1) = 1
              | _ \<Rightarrow> False)
      | _ \<Rightarrow> False)"
proof -
  from eval_open_one obtain r w1 where
    e: "PublishOrderBatchWithOpenSpan env0 None 1 world0 = Returns (r, w1)" "failure r = None"
    and i: "itemSpans r = [(''ORDER-3f2a9c1e'', Some 1)]" and p: "published r = 1"
    by blast
  have cl: "collectLoop (Suc 0) [] rcvInvalid = []"
    by (simp add: rcvInvalid_def IsValid_def emptySpanContext_def)
  from forward_batch [OF e, of rcvInvalid] obtain w2 where
    ret: "collectForward r rcvInvalid w1 = Returns w2"
    and en: "\<forall>e \<in> set (itemSpans r). \<exists>h. snd e = Some h
            \<and> length (spans (tracer world0)) < h \<and> h < length (spans (tracer w2))
            \<and> endCalls (spans (tracer w2) ! h) = 1
            \<and> links (spans (tracer w2) ! h)
                = (case find (\<lambda>c. OrderID c = fst e) (collectLoop (published r) [] rcvInvalid) of
                     None \<Rightarrow> [] | Some c \<Rightarrow> [forwardLink c])"
    by blast
  from en have "links (spans (tracer w2) ! 1) = [] \<and> endCalls (spans (tracer w2) ! 1) = 1"
    by (simp add: i p cl)
  with e i ret show ?thesis
    by (simp add: rcvInvalid_def)
qed

text \<open>
  C2 (amended): when an open batch returns without error, the collection phase returns
  (so does \<open>runForwardSingleBatch\<close>, which runs both with the default batch size), and
  then: the batch span has been ended once; every item span in the returned map has been
  ended once; such a span carries exactly one link, the forward link of the first
  collected record that names its order, when there is one, and no link otherwise. The
  collected records are the first \<open>published\<close> records received that carry a valid
  SpanContext. When the identities of the items of the batch differ, the map holds every
  published item and every span the run created has been ended exactly once.
\<close>

theorem C2:
  assumes "PublishOrderBatchWithOpenSpan env ctx count w = Returns (r, w1)"
    and "failure r = None"
  shows "\<exists>w2. collectForward r rcv w1 = Returns w2
      \<and> (count = DefaultBatchSize \<longrightarrow> runForwardSingleBatch env ctx rcv w = Returns w2)
      \<and> collectLoop (published r) [] rcv = take (published r) (filter (\<lambda>sc. IsValid (Ctx sc)) rcv)
      \<and> endCalls (spans (tracer w2) ! length (spans (tracer w))) = 1
      \<and> (\<forall>e \<in> set (itemSpans r). \<exists>h. snd e = Some h
            \<and> length (spans (tracer w)) < h \<and> h < length (spans (tracer w2))
            \<and> endCalls (spans (tracer w2) ! h) = 1
            \<and> links (spans (tracer w2) ! h)
                = (case find (\<lambda>c. OrderID c = fst e) (collectLoop (published r) [] rcv) of
                     None \<Rightarrow> [] | Some c \<Rightarrow> [forwardLink c]))
      \<and> (inj_on (\<lambda>j. uuid8 (env j)) {..<nat count} \<longrightarrow>
            length (itemSpans r) = published r
            \<and> (\<forall>h. length (spans (tracer w)) \<le> h \<and> h < length (spans (tracer w2))
                  \<longrightarrow> endCalls (spans (tracer w2) ! h) = 1))"
  using assms by (rule forward_batch)

text \<open>
  C2 (amended) at a batch of two items with different identities and two valid records,
  the first of which names the second order: the first item span is ended once with no
  link, the second is ended once with the forward link of that record.
\<close>

theorem C2_witness:
  "\<exists>r w1 w2. PublishOrderBatchWithOpenSpan env0 None 2 world0 = Returns (r, w1) \<and> failure r = None
      \<and> itemSpans r = [(''ORDER-3f2a9c1e'', Some 1), (''ORDER-9b1d4e7a'', Some 2)]
      \<and> inj_on (\<lambda>j. uuid8 (env0 j)) {..<nat 2}
      \<and> collectForward r rcvSample w1 = Returns w2
      \<and> endCalls (spans (tracer w2) ! 0) = 1
      \<and> endCalls (spans (tracer w2) ! 1) = 1 \<and> links (spans (tracer w2) ! 1) = []
      \<and> endCalls (spans (tracer w2) ! 2) = 1
      \<and> links (spans (tracer w2) ! 2) = [forwardLink (hd rcvSample)]"
proof -
  from eval_open_two obtain r w1 where
    e: "PublishOrderBatchWithOpenSpan env0 None 2 world0 = Returns (r, w1)" "failure r = None"
    and i: "itemSpans r = [(''ORDER-3f2a9c1e'', Some 1), (''ORDER-9b1d4e7a'', Some 2)]"
    and p: "published r = 2"
    by blast
  have v: "IsValid workerCtx"
    by (simp add: IsValid_def workerCtx_def)
  have cl: "collectLoop 2 [] rcvSample = rcvSample"
    by (simp add: rcvSample_def v numeral_2_eq_2)
  have n: "length (spans (tracer world0)) = 0"
    by (simp add: world0_def tracer0_def)
  from C2 [OF e, of rcvSample] obtain w2 where
    ret: "collectForward r rcvSample w1 = Returns w2"
    and b: "endCalls (spans (tracer w2) ! length (spans (tracer world0))) = 1"
    and en: "\<forall>e \<in> set (itemSpans r). \<exists>h. snd e = Some h
            \<and> length (spans (tracer world0)) < h \<and> h < length (spans (tracer w2))
            \<and> endCalls (spans (tracer w2) ! h) = 1
            \<and> links (spans (tracer w2) ! h)
                = (case find (\<lambda>c. OrderID c = fst e) (collectLoop (published r) [] rcvSample) of
                     None \<Rightarrow> [] | Some c \<Rightarrow> [forwardLink c])"
    by blast
  from en have 1: "endCalls (spans (tracer w2) ! 1) = 1 \<and> links (spans (tracer w2) ! 1) = []"
    and 2: "endCalls (spans (tracer w2) ! 2) = 1
        \<and> links (spans (tracer w2) ! 2) = [forwardLink (hd rcvSample)]"
    by (simp_all add: i p cl) (simp_all add: rcvSample_def)
  from b have 0: "endCalls (spans (tracer w2) ! 0) = 1" by (simp only: n)
  from e i env0_distinct ret 0 1 2 show ?thesis by blast
qed

section \<open>The retry chain\<close>

lemma retryAttempt_spec:
  assumes "retryAttempt oc rnd a x = (success, x2)"
  shows "length (spans (xtracer x2)) = Suc (length (spans (xtracer x)))"
    and "idgen (xtracer x2) = idgen (xtracer x)"
    and "\<forall>h < length (spans (xtracer x)). spans (xtracer x2) ! h = spans (xtracer x) ! h"
    and "map LinkSpanContext (links (spans (xtracer x2) ! length (spans (xtracer x)))) = [oc]"
    and "endCalls (spans (xtracer x2) ! length (spans (xtracer x))) = 1"
    and "SpanID (spanContext (spans (xtracer x2) ! length (spans (xtracer x))))
           = snd (idgen (xtracer x) (length (spans (xtracer x))))"
    and "slept x2 = slept x @ [50 * Millisecond]"
    and "success \<longleftrightarrow> a \<noteq> 1 \<and> rnd a < 0.7"
  using assms
  by (auto simp: retryAttempt_def simulateProcessing_def Let_def Start_def Sleep_def End_def
      SetStatus_def RecordError_def AddEvent_def updSpan_nth nth_append newSpan_def
      split: if_splits)

lemma retryLoop_unfold:
  "retryLoop oc rnd m a x =
     (if a \<le> m
      then (if a \<noteq> 1 \<and> rnd a < 0.7 then snd (retryAttempt oc rnd a x)
            else retryLoop oc rnd m (a + 1) (Sleep (backoff a) (snd (retryAttempt oc rnd a x))))
      else x)"
proof -
  obtain success x2 where att: "retryAttempt oc rnd a x = (success, x2)"
    by (cases "retryAttempt oc rnd a x") auto
  from retryAttempt_spec(8) [OF att] att show ?thesis
    by (subst retryLoop.simps) auto
qed

lemma retryAttempt_slept: "slept (snd (retryAttempt oc rnd a x)) = slept x @ [50 * Millisecond]"
  using retryAttempt_spec(7) [of oc rnd a x "fst (retryAttempt oc rnd a x)" "snd (retryAttempt oc rnd a x)"]
  by simp

lemma retryAttempt_length:
  "length (spans (xtracer (snd (retryAttempt oc rnd a x)))) = Suc (length (spans (xtracer x)))"
  using retryAttempt_spec(1) [of oc rnd a x "fst (retryAttempt oc rnd a x)" "snd (retryAttempt oc rnd a x)"]
  by simp

lemma retrySpans_step:
  assumes a: "retryAttempt oc rnd a x = (success, x2)"
    and r: "retrySpans oc (xtracer x2) t'"
  shows "retrySpans oc (xtracer x) t'"
proof -
  note s = retryAttempt_spec [OF a]
  let ?n = "length (spans (xtracer x))"
  from r s(1) have len: "Suc ?n \<le> length (spans t')"
    by (simp add: retrySpans_def)
  from r s(2) have ig: "idgen t' = idgen (xtracer x)"
    by (simp add: retrySpans_def)
  from r s(1) have old: "spans t' ! h = spans (xtracer x2) ! h" if "h \<le> ?n" for h
    using that by (simp add: retrySpans_def)
  have 1: "spans t' ! h = spans (xtracer x) ! h" if "h < ?n" for h
    using that old [of h] s(3) by simp
  have 2: "map LinkSpanContext (links (spans t' ! h)) = [oc] \<and> endCalls (spans t' ! h) = 1
        \<and> SpanID (spanContext (spans t' ! h)) = snd (idgen (xtracer x) h)"
    if "?n \<le> h" "h < length (spans t')" for h
  proof (cases "h = ?n")
    case True
    with old [of ?n] s(4,5,6) show ?thesis by simp
  next
    case False
    with that have "length (spans (xtracer x2)) \<le> h" using s(1) by simp
    with r that(2) s(2) show ?thesis by (simp add: retrySpans_def)
  qed
  from len ig 1 2 show ?thesis
    unfolding retrySpans_def by auto
qed

lemma retryLoop_spans:
  "retrySpans oc (xtracer x) (xtracer (retryLoop oc rnd m a x))
   \<and> length (spans (xtracer (retryLoop oc rnd m a x))) \<le> length (spans (xtracer x)) + nat (m + 1 - a)
   \<and> (if a \<le> m then length (spans (xtracer x)) < length (spans (xtracer (retryLoop oc rnd m a x)))
       else retryLoop oc rnd m a x = x)"
proof (induction oc rnd m a x rule: retryLoop.induct)
  case (1 oc rnd m a x)
  show ?case
  proof (cases "a \<le> m")
    case False
    then show ?thesis
      by (subst (1 2 3 4) retryLoop.simps) (auto simp: retrySpans_def)
  next
    case True
    obtain success x2 where att: "retryAttempt oc rnd a x = (success, x2)"
      by (cases "retryAttempt oc rnd a x") auto
    note s = retryAttempt_spec [OF att]
    show ?thesis
    proof (cases success)
      case True
      have eq: "retryLoop oc rnd m a x = x2"
        using \<open>a \<le> m\<close> att True by (subst retryLoop.simps) simp
      have "retrySpans oc (xtracer x2) (xtracer x2)"
        by (auto simp: retrySpans_def)
      from retrySpans_step [OF att this] s(1) \<open>a \<le> m\<close> show ?thesis
        by (simp add: eq)
    next
      case False
      have eq: "retryLoop oc rnd m a x = retryLoop oc rnd m (a + 1) (Sleep (backoff a) x2)"
        using \<open>a \<le> m\<close> att False by (subst retryLoop.simps) simp
      from "1.IH" [OF \<open>a \<le> m\<close> refl att [symmetric] False]
      have ih: "retrySpans oc (xtracer x2) (xtracer (retryLoop oc rnd m (a + 1) (Sleep (backoff a) x2)))"
        and le: "length (spans (xtracer (retryLoop oc rnd m (a + 1) (Sleep (backoff a) x2))))
                  \<le> length (spans (xtracer x2)) + nat (m + 1 - (a + 1))"
        by (simp_all add: Sleep_def)
      from retrySpans_step [OF att ih]
      have r: "retrySpans oc (xtracer x) (xtracer (retryLoop oc rnd m a x))"
        by (simp add: eq)
      from ih s(1) have "length (spans (xtracer x)) < length (spans (xtracer (retryLoop oc rnd m a x)))"
        by (simp add: eq retrySpans_def)
      moreover from le s(1) \<open>a \<le> m\<close>
      have "length (spans (xtracer (retryLoop oc rnd m a x))) \<le> length (spans (xtracer x)) + nat (m + 1 - a)"
        by (simp add: eq)
      ultimately show ?thesis using r \<open>a \<le> m\<close> by simp
    qed
  qed
qed

text \<open>The original attempt: one more span, with no link, which fails.\<close>

lemma original_attempt:
  "simulateProcessing (length (spans t)) 1 r
     (x\<lparr>xtracer := snd (Start ctx name kind attrs [] t)\<rparr>) = (success, x1)
   \<Longrightarrow> \<not> success \<and> length (spans (xtracer x1)) = Suc (length (spans t))
       \<and> idgen (xtracer x1) = idgen t
       \<and> links (spans (xtracer x1) ! length (spans t)) = []
       \<and> spanContext (spans (xtracer x1) ! length (spans t))
            = spanContext (newSpan t ctx name kind attrs [])
       \<and> slept x1 = slept x @ [50 * Millisecond]"
  by (auto simp: simulateProcessing_def Let_def Sleep_def SetStatus_nth RecordError_nth nth_append)

lemma RetryExample_unfold:
  "\<exists>x2. RetryExample ctx rnd x
        = retryLoop (spanContext (spans (xtracer x2) ! length (spans (xtracer x)))) rnd 3 2 x2
      \<and> length (spans (xtracer x2)) = Suc (length (spans (xtracer x)))
      \<and> idgen (xtracer x2) = idgen (xtracer x)
      \<and> links (spans (xtracer x2) ! length (spans (xtracer x))) = []
      \<and> SpanID (spanContext (spans (xtracer x2) ! length (spans (xtracer x))))
           = snd (idgen (xtracer x) (length (spans (xtracer x))))
      \<and> slept x2 = slept x @ [50 * Millisecond]"
proof -
  let ?t = "xtracer x"
  let ?n = "length (spans ?t)"
  let ?attrs = "[(''request.id'', StringValue ''req-123''), (''attempt'', IntValue 1)]"
  obtain success x1 where sim: "simulateProcessing ?n 1 (rnd 1)
      (x\<lparr>xtracer := snd (Start ctx ''ProcessRequest'' SpanKindUnspecified ?attrs [] ?t)\<rparr>) = (success, x1)"
    by (cases "simulateProcessing ?n 1 (rnd 1)
      (x\<lparr>xtracer := snd (Start ctx ''ProcessRequest'' SpanKindUnspecified ?attrs [] ?t)\<rparr>)") auto
  note o = original_attempt [OF sim]
  let ?x2 = "x1\<lparr>xtracer := End ?n (xtracer x1)\<rparr>"
  have sc: "SpanContextOf (snd (Start ctx ''ProcessRequest'' SpanKindUnspecified ?attrs [] ?t)) (Some ?n)
      = spanContext (newSpan ?t ctx ''ProcessRequest'' SpanKindUnspecified ?attrs [])"
    by (simp add: SpanContextOf_def)
  have "RetryExample ctx rnd x
      = retryLoop (spanContext (newSpan ?t ctx ''ProcessRequest'' SpanKindUnspecified ?attrs [])) rnd 3 2 ?x2"
    using sim o sc by (simp add: RetryExample_def Let_def Start_def)
  moreover have "spanContext (spans (xtracer ?x2) ! ?n)
      = spanContext (newSpan ?t ctx ''ProcessRequest'' SpanKindUnspecified ?attrs [])"
    using o by (simp add: End_nth)
  moreover have "links (spans (xtracer ?x2) ! ?n) = []"
    using o by (simp add: End_nth)
  moreover have "SpanID (spanContext (spans (xtracer ?x2) ! ?n)) = snd (idgen ?t ?n)"
    using o by (simp add: End_nth newSpan_def Let_def)
  ultimately show ?thesis
    using o by (intro exI [of _ ?x2]) simp
qed

text \<open>
  C7: in every run of the retry example, starting from any tracer and under any draws of
  the random source, the original attempt is the span at the first new handle \<open>n\<close> and
  has no link; there are one or two further attempts (attempts 2 to K with K at most 3),
  and each of them carries exactly one link, whose target is the SpanContext of the
  original attempt. For the third attempt, that target is not the SpanContext of the
  attempt before it whenever the tracer gave the two earlier attempts different span
  identities.
\<close>

theorem C7:
  "length (spans (xtracer x)) + 2 \<le> length (spans (xtracer (RetryExample ctx rnd x)))
   \<and> length (spans (xtracer (RetryExample ctx rnd x))) \<le> length (spans (xtracer x)) + 3
   \<and> links (spans (xtracer (RetryExample ctx rnd x)) ! length (spans (xtracer x))) = []
   \<and> (\<forall>h. length (spans (xtracer x)) < h \<and> h < length (spans (xtracer (RetryExample ctx rnd x)))
        \<longrightarrow> map LinkSpanContext (links (spans (xtracer (RetryExample ctx rnd x)) ! h))
             = [spanContext (spans (xtracer (RetryExample ctx rnd x)) ! length (spans (xtracer x)))])
   \<and> (\<forall>h. Suc (length (spans (xtracer x))) < h \<and> h < length (spans (xtracer (RetryExample ctx rnd x)))
          \<and> snd (idgen (xtracer x) (length (spans (xtracer x)))) \<noteq> snd (idgen (xtracer x) (h - 1))
        \<longrightarrow> map LinkSpanContext (links (spans (xtracer (RetryExample ctx rnd x)) ! h))
             \<noteq> [spanContext (spans (xtracer (RetryExample ctx rnd x)) ! (h - 1))])"
proof -
  let ?n = "length (spans (xtracer x))"
  from RetryExample_unfold [of ctx rnd x] obtain x2 where
    eq: "RetryExample ctx rnd x = retryLoop (spanContext (spans (xtracer x2) ! ?n)) rnd 3 2 x2"
    and len2: "length (spans (xtracer x2)) = Suc ?n"
    and ig: "idgen (xtracer x2) = idgen (xtracer x)"
    and l0: "links (spans (xtracer x2) ! ?n) = []"
    and id0: "SpanID (spanContext (spans (xtracer x2) ! ?n)) = snd (idgen (xtracer x) ?n)"
    by blast
  let ?oc = "spanContext (spans (xtracer x2) ! ?n)"
  let ?t' = "xtracer (RetryExample ctx rnd x)"
  from retryLoop_spans [of ?oc x2 rnd 3 2]
  have rs: "retrySpans ?oc (xtracer x2) ?t'"
    and ub: "length (spans ?t') \<le> length (spans (xtracer x2)) + 2"
    and lb: "length (spans (xtracer x2)) < length (spans ?t')"
    by (simp_all add: eq)
  from rs len2 have same: "spans ?t' ! ?n = spans (xtracer x2) ! ?n"
    by (simp add: retrySpans_def)
  from rs len2 ig have new: "map LinkSpanContext (links (spans ?t' ! h)) = [?oc]
      \<and> SpanID (spanContext (spans ?t' ! h)) = snd (idgen (xtracer x) h)"
    if "?n < h" "h < length (spans ?t')" for h
    using that by (simp add: retrySpans_def)
  have 1: "?n + 2 \<le> length (spans ?t')" using lb len2 by simp
  have 2: "length (spans ?t') \<le> ?n + 3" using ub len2 by simp
  have 3: "links (spans ?t' ! ?n) = []" using same l0 by simp
  have 4: "map LinkSpanContext (links (spans ?t' ! h)) = [spanContext (spans ?t' ! ?n)]"
    if "?n < h" "h < length (spans ?t')" for h
    using new [OF that] same by simp
  have 5: "map LinkSpanContext (links (spans ?t' ! h)) \<noteq> [spanContext (spans ?t' ! (h - 1))]"
    if "Suc ?n < h" "h < length (spans ?t')"
      "snd (idgen (xtracer x) ?n) \<noteq> snd (idgen (xtracer x) (h - 1))" for h
  proof
    assume "map LinkSpanContext (links (spans ?t' ! h)) = [spanContext (spans ?t' ! (h - 1))]"
    with new [of h] that have "?oc = spanContext (spans ?t' ! (h - 1))" by simp
    moreover from new [of "h - 1"] that
    have "SpanID (spanContext (spans ?t' ! (h - 1))) = snd (idgen (xtracer x) (h - 1))" by simp
    ultimately show False using id0 that(3) by simp
  qed
  show ?thesis
    apply (intro conjI allI impI)
        apply (rule 1)
       apply (rule 2)
      apply (rule 3)
     apply (rule 4; simp)
    apply (rule 5; simp)
    done
qed

text \<open>A run of the example in which both retries fail, and one in which the first succeeds.\<close>

lemma retry_fail_slept:
  "slept (RetryExample None rndFail example0)
     = [50 * Millisecond, 50 * Millisecond, 200 * Millisecond, 50 * Millisecond, 300 * Millisecond]"
proof -
  from RetryExample_unfold [of None rndFail example0] obtain x2 where
    eq: "RetryExample None rndFail example0
          = retryLoop (spanContext (spans (xtracer x2) ! length (spans (xtracer example0)))) rndFail 3 2 x2"
    and sl: "slept x2 = slept example0 @ [50 * Millisecond]"
    by blast
  show ?thesis
    unfolding eq
    by (simp add: retryLoop_unfold rndFail_def retryAttempt_slept Sleep_def backoff_def sl example0_def)
qed

lemma retry_ok_slept:
  "slept (RetryExample None rndOk example0) = [50 * Millisecond, 50 * Millisecond]"
proof -
  from RetryExample_unfold [of None rndOk example0] obtain x2 where
    eq: "RetryExample None rndOk example0
          = retryLoop (spanContext (spans (xtracer x2) ! length (spans (xtracer example0)))) rndOk 3 2 x2"
    and sl: "slept x2 = slept example0 @ [50 * Millisecond]"
    by blast
  show ?thesis
    unfolding eq
    by (simp add: retryLoop_unfold rndOk_def retryAttempt_slept sl example0_def)
qed

lemma retry_fail_length:
  "length (spans (xtracer (RetryExample None rndFail example0))) = 3"
proof -
  from RetryExample_unfold [of None rndFail example0] obtain x2 where
    eq: "RetryExample None rndFail example0
          = retryLoop (spanContext (spans (xtracer x2) ! length (spans (xtracer example0)))) rndFail 3 2 x2"
    and len: "length (spans (xtracer x2)) = Suc (length (spans (xtracer example0)))"
    by blast
  show ?thesis
    unfolding eq
    by (simp add: retryLoop_unfold rndFail_def retryAttempt_length Sleep_def len example0_def tracer0_def)
qed

text \<open>
  C7 at the run in which both retries fail: three attempts, the second and the third
  each linked to the first, and the third not to the second.
\<close>

theorem C7_witness:
  "length (spans (xtracer (RetryExample None rndFail example0))) = 3
   \<and> links (spans (xtracer (RetryExample None rndFail example0)) ! 0) = []
   \<and> map LinkSpanContext (links (spans (xtracer (RetryExample None rndFail example0)) ! 1))
       = [spanContext (spans (xtracer (RetryExample None rndFail example0)) ! 0)]
   \<and> map LinkSpanContext (links (spans (xtracer (RetryExample None rndFail example0)) ! 2))
       = [spanContext (spans (xtracer (RetryExample None rndFail example0)) ! 0)]
   \<and> map LinkSpanContext (links (spans (xtracer (RetryExample None rndFail example0)) ! 2))
       \<noteq> [spanContext (spans (xtracer (RetryExample None rndFail example0)) ! 1)]"
proof -
  let ?t = "xtracer (RetryExample None rndFail example0)"
  have n: "length (spans (xtracer example0)) = 0"
    by (simp add: example0_def tracer0_def)
  have d: "snd (idgen (xtracer example0) 0) \<noteq> snd (idgen (xtracer example0) (2 - 1))"
    by (simp add: example0_def tracer0_def)
  note c = C7 [of example0 None rndFail]
  note c3 = c [THEN conjunct2, THEN conjunct2, THEN conjunct1]
  note c4 = c [THEN conjunct2, THEN conjunct2, THEN conjunct2, THEN conjunct1]
  note c5 = c [THEN conjunct2, THEN conjunct2, THEN conjunct2, THEN conjunct2]
  have 0: "links (spans ?t ! 0) = []"
    using c3 by (simp only: n)
  have 1: "map LinkSpanContext (links (spans ?t ! 1)) = [spanContext (spans ?t ! 0)]"
    using c4 [THEN spec, of 1] by (simp only: n retry_fail_length) simp
  have 2: "map LinkSpanContext (links (spans ?t ! 2)) = [spanContext (spans ?t ! 0)]"
    using c4 [THEN spec, of 2] by (simp only: n retry_fail_length) simp
  have "map LinkSpanContext (links (spans ?t ! 2)) \<noteq> [spanContext (spans ?t ! (2 - 1))]"
    using c5 [THEN spec, of 2] d by (simp only: n retry_fail_length) simp
  then have 3: "map LinkSpanContext (links (spans ?t ! 2)) \<noteq> [spanContext (spans ?t ! 1)]"
    by simp
  show ?thesis
    by (intro conjI retry_fail_length 0 1 2 3)
qed




section \<open>The worker\<close>

lemma validateOrder_spec:
  "fst (validateOrder ctx order t) = None
   \<and> length (spans (snd (validateOrder ctx order t))) = Suc (length (spans t))
   \<and> (\<forall>h < length (spans t). spans (snd (validateOrder ctx order t)) ! h = spans t ! h)"
  by (simp add: validateOrder_def Let_def Start_def End_nth nth_append)

lemma processPayment_spec:
  "fst (processPayment ctx order t) = None
   \<and> length (spans (snd (processPayment ctx order t))) = Suc (length (spans t))
   \<and> (\<forall>h < length (spans t). spans (snd (processPayment ctx order t)) ! h = spans t ! h)"
  by (simp add: processPayment_def Let_def Start_def End_nth nth_append)

lemma shipOrder_spec:
  "fst (shipOrder ctx order t) = None
   \<and> length (spans (snd (shipOrder ctx order t))) = Suc (length (spans t))
   \<and> (\<forall>h < length (spans t). spans (snd (shipOrder ctx order t)) ! h = spans t ! h)"
  by (simp add: shipOrder_def Let_def Start_def End_nth nth_append)

text \<open>The three steps leave the spans that exist as they are.\<close>

lemma pipeline_spec:
  assumes "n < length (spans t)"
  shows "fst (validateOrder c1 order t) = None"
    and "fst (processPayment c2 order (snd (validateOrder c1 order t))) = None"
    and "fst (shipOrder c3 order (snd (processPayment c2 order (snd (validateOrder c1 order t))))) = None"
    and "spans (snd (shipOrder c3 order (snd (processPayment c2 order (snd (validateOrder c1 order t)))))) ! n
           = spans t ! n"
    and "length (spans (snd (shipOrder c3 order (snd (processPayment c2 order (snd (validateOrder c1 order t)))))))
           = length (spans t) + 3"
proof -
  let ?t1 = "snd (validateOrder c1 order t)"
  let ?t2 = "snd (processPayment c2 order ?t1)"
  let ?t3 = "snd (shipOrder c3 order ?t2)"
  note v = validateOrder_spec [of c1 order t]
  note p = processPayment_spec [of c2 order ?t1]
  note s = shipOrder_spec [of c3 order ?t2]
  from v show "fst (validateOrder c1 order t) = None" by simp
  from p show "fst (processPayment c2 order ?t1) = None" by simp
  from s show "fst (shipOrder c3 order ?t2) = None" by simp
  from v p s assms show "spans ?t3 ! n = spans t ! n" by simp
  from v p s show "length (spans ?t3) = length (spans t) + 3" by simp
qed

lemma TraceIDFromHex_valid: "TraceIDFromHex h = Inr t \<Longrightarrow> t \<noteq> 0"
  by (auto simp: TraceIDFromHex_def split: if_splits option.splits)

lemma SpanIDFromHex_valid: "SpanIDFromHex h = Inr s \<Longrightarrow> s \<noteq> 0"
  by (auto simp: SpanIDFromHex_def split: if_splits option.splits)

text \<open>The decoded context is valid exactly when the carrier is long enough and both segments parse.\<close>

lemma decode_valid_iff:
  "\<exists>c. SpanContextFromMessage order = Some c
      \<and> (IsValid c \<longleftrightarrow> 53 \<le> length (TraceParent order)
            \<and> \<not> isl (TraceIDFromHex (take 32 (drop 3 (TraceParent order))))
            \<and> \<not> isl (SpanIDFromHex (take 16 (drop 36 (TraceParent order)))))"
  by (auto simp: SpanContextFromMessage_def slice_def IsValid_def emptySpanContext_def
      split: sum.splits dest: TraceIDFromHex_valid SpanIDFromHex_valid)

lemma processOrderWithLink_span:
  assumes "ID order \<noteq> []" and "SpanContextFromMessage order = Some c"
  shows "\<exists>w'. processOrderWithLink ctx order workerID w = Returns (None, w')
      \<and> length (spans (tracer w')) = length (spans (tracer w)) + 4
      \<and> spanName (spans (tracer w') ! length (spans (tracer w))) = ''ProcessOrder''
      \<and> spanKind (spans (tracer w') ! length (spans (tracer w))) = SpanKindConsumer
      \<and> links (spans (tracer w') ! length (spans (tracer w))) = [backwardLink c]
      \<and> endCalls (spans (tracer w') ! length (spans (tracer w))) = 1"
proof -
  let ?n = "length (spans (tracer w))"
  let ?t1 = "snd (Start ctx ''ProcessOrder'' SpanKindConsumer
                (orderAttrs order @ [(''worker.id'', StringValue workerID)]) [backwardLink c] (tracer w))"
  have n: "?n < length (spans ?t1)" by simp
  note p = pipeline_spec [OF n]
  show ?thesis
    using assms p
    by (simp add: processOrderWithLink_def Let_def backwardLink_def split_beta End_nth
        Start_def [where lnks = "[x]" for x])
qed

text \<open>
  C4, as stated, at a message whose carrier is empty: the carrier decodes to the invalid
  sentinel, and the worker still starts its consumer-kind span with one link, whose
  target is that sentinel; the list of links it hands to the tracer is not empty.
\<close>

theorem C4_counterexample:
  "SpanContextFromMessage order0 = Some emptySpanContext
   \<and> \<not> IsValid emptySpanContext
   \<and> (case processOrderWithLink None order0 ''Worker-1'' world0 of
        Returns (e, w') \<Rightarrow>
          e = None \<and> spanKind (spans (tracer w') ! 0) = SpanKindConsumer
          \<and> links (spans (tracer w') ! 0) = [backwardLink emptySpanContext]
      | _ \<Rightarrow> False)"
proof -
  have d: "SpanContextFromMessage order0 = Some emptySpanContext"
    by (simp add: SpanContextFromMessage_def order0_def)
  have i: "ID order0 \<noteq> []" by (simp add: order0_def)
  from processOrderWithLink_span [OF i d, of None "''Worker-1''" world0] d
  show ?thesis
    by (auto simp: IsValid_def emptySpanContext_def world0_def tracer0_def)
qed

text \<open>
  C4 (amended): for every message with a non-empty identity, the worker returns with its
  processing span, of consumer kind, started with exactly one backward link, whose
  target is the SpanContext the carrier decodes to, and ended once. That target is valid
  exactly when the carrier has at least 53 characters and both its segments parse; when
  it is the invalid sentinel the link is handed to the tracer all the same.
\<close>

theorem C4:
  assumes "ID order \<noteq> []"
  shows "\<exists>c w'. SpanContextFromMessage order = Some c
      \<and> processOrderWithLink ctx order workerID w = Returns (None, w')
      \<and> spanName (spans (tracer w') ! length (spans (tracer w))) = ''ProcessOrder''
      \<and> spanKind (spans (tracer w') ! length (spans (tracer w))) = SpanKindConsumer
      \<and> links (spans (tracer w') ! length (spans (tracer w))) = [backwardLink c]
      \<and> endCalls (spans (tracer w') ! length (spans (tracer w))) = 1
      \<and> (IsValid c \<longleftrightarrow> 53 \<le> length (TraceParent order)
            \<and> \<not> isl (TraceIDFromHex (take 32 (drop 3 (TraceParent order))))
            \<and> \<not> isl (SpanIDFromHex (take 16 (drop 36 (TraceParent order)))))"
proof -
  from decode_valid_iff [of order] obtain c where
    c: "SpanContextFromMessage order = Some c"
    and v: "IsValid c \<longleftrightarrow> 53 \<le> length (TraceParent order)
            \<and> \<not> isl (TraceIDFromHex (take 32 (drop 3 (TraceParent order))))
            \<and> \<not> isl (SpanIDFromHex (take 16 (drop 36 (TraceParent order))))"
    by blast
  from processOrderWithLink_span [OF assms c, of ctx workerID w] c v
  show ?thesis by blast
qed

text \<open>C4 (amended) at a message stamped under a valid identity.\<close>

theorem C4_witness:
  "\<exists>w'. processOrderWithLink None order0_stamped ''Worker-1'' world0 = Returns (None, w')
      \<and> spanKind (spans (tracer w') ! 0) = SpanKindConsumer
      \<and> links (spans (tracer w') ! 0)
          = [backwardLink \<lparr>TraceID = 1, SpanID = 2, TraceFlags = 1, TraceState = [], Remote = True\<rparr>]
      \<and> endCalls (spans (tracer w') ! 0) = 1"
proof -
  have i: "ID order0_stamped \<noteq> []" by (simp add: order0_stamped_def order0_def)
  have n: "length (spans (tracer world0)) = 0" by (simp add: world0_def tracer0_def)
  from C4 [OF i, of None "''Worker-1''" world0] show ?thesis
    unfolding n decode_order0_stamped by auto
qed

end
